theory Spec2Isabelle
  imports Complex_Main "HOL-Library.Multiset"
begin

section \<open>Numbers of the engine\<close>

text \<open>
  The engine (\<^verbatim>\<open>src/src/squarify.ts\<close>) computes with the \<^verbatim>\<open>number\<close> type and uses
  the special values as control signals: \<^verbatim>\<open>Number.POSITIVE_INFINITY\<close> starts every row,
  \<^verbatim>\<open>Number.MAX_VALUE\<close> is returned for a zero edge, and \<^verbatim>\<open>isNaN\<close> picks the fallback
  formulas after a division \<^verbatim>\<open>0 / 0\<close>. A number is therefore a finite value, one of
  the two infinities, or NaN. Finite values are rationals and finite arithmetic is
  exact: there is no rounding and no overflow, and the two zeros of the floating-point
  format are one value (so \<^verbatim>\<open>a / 0\<close> takes the sign of \<open>a\<close>).
\<close>

datatype number = Fin rat | PInf | NInf | NaN

fun isNaN :: "number \<Rightarrow> bool" where
  "isNaN NaN = True"
| "isNaN _ = False"

fun is_neg :: "number \<Rightarrow> bool" where
  "is_neg (Fin a) = (a < 0)"
| "is_neg NInf = True"
| "is_neg _ = False"

fun num_neg :: "number \<Rightarrow> number" where
  "num_neg (Fin a) = Fin (- a)"
| "num_neg PInf = NInf"
| "num_neg NInf = PInf"
| "num_neg NaN = NaN"

fun num_add :: "number \<Rightarrow> number \<Rightarrow> number" where
  "num_add (Fin a) (Fin b) = Fin (a + b)"
| "num_add NaN _ = NaN"
| "num_add _ NaN = NaN"
| "num_add PInf NInf = NaN"
| "num_add NInf PInf = NaN"
| "num_add PInf _ = PInf"
| "num_add _ PInf = PInf"
| "num_add NInf _ = NInf"
| "num_add _ NInf = NInf"

definition num_sub :: "number \<Rightarrow> number \<Rightarrow> number" where
  "num_sub a b = num_add a (num_neg b)"

fun num_mul :: "number \<Rightarrow> number \<Rightarrow> number" where
  "num_mul (Fin a) (Fin b) = Fin (a * b)"
| "num_mul NaN _ = NaN"
| "num_mul _ NaN = NaN"
| "num_mul a b =
     (if a = Fin 0 \<or> b = Fin 0 then NaN
      else if is_neg a = is_neg b then PInf else NInf)"

fun num_div :: "number \<Rightarrow> number \<Rightarrow> number" where
  "num_div (Fin a) (Fin b) =
     (if b \<noteq> 0 then Fin (a / b)
      else if a = 0 then NaN
      else if 0 < a then PInf else NInf)"
| "num_div NaN _ = NaN"
| "num_div _ NaN = NaN"
| "num_div (Fin a) _ = Fin 0"
| "num_div a (Fin b) = (if is_neg a = (b < 0) then PInf else NInf)"
| "num_div _ _ = NaN"

text \<open>\<^verbatim>\<open>a < b\<close>; every comparison with NaN is false.\<close>

fun num_less :: "number \<Rightarrow> number \<Rightarrow> bool" where
  "num_less (Fin a) (Fin b) = (a < b)"
| "num_less NaN _ = False"
| "num_less _ NaN = False"
| "num_less PInf _ = False"
| "num_less _ PInf = True"
| "num_less NInf NInf = False"
| "num_less NInf _ = True"
| "num_less _ NInf = False"

definition num_gt :: "number \<Rightarrow> number \<Rightarrow> bool" where
  "num_gt a b = num_less b a"

definition num_ge :: "number \<Rightarrow> number \<Rightarrow> bool" where
  "num_ge a b = (\<not> isNaN a \<and> \<not> isNaN b \<and> \<not> num_less a b)"

text \<open>\<^verbatim>\<open>a == b\<close> on numbers: NaN equals nothing.\<close>

definition num_eq :: "number \<Rightarrow> number \<Rightarrow> bool" where
  "num_eq a b = (\<not> isNaN a \<and> a = b)"

definition Math_min :: "number \<Rightarrow> number \<Rightarrow> number" where
  "Math_min a b = (if isNaN a \<or> isNaN b then NaN else if num_less b a then b else a)"

definition Math_max :: "number \<Rightarrow> number \<Rightarrow> number" where
  "Math_max a b = (if isNaN a \<or> isNaN b then NaN else if num_less a b then b else a)"

text \<open>\<^verbatim>\<open>Math.pow(a, 2)\<close>, the only exponent the engine uses.\<close>

definition Math_pow2 :: "number \<Rightarrow> number" where
  "Math_pow2 a = num_mul a a"

text \<open>\<^verbatim>\<open>Number.MAX_VALUE\<close> is \<open>(2 - 2\<^sup>-\<^sup>5\<^sup>2) \<times> 2\<^sup>1\<^sup>0\<^sup>2\<^sup>3\<close>.\<close>

definition MAX_VALUE :: number where
  "MAX_VALUE = Fin (2 ^ 1024 - 2 ^ 971)"

definition POSITIVE_INFINITY :: number where
  "POSITIVE_INFINITY = PInf"

text \<open>An array length, and the integer counter \<^verbatim>\<open>_itemsRemaining\<close>, read as numbers.\<close>

definition num_of_nat :: "nat \<Rightarrow> number" where
  "num_of_nat n = Fin (of_nat n)"

definition num_of_int :: "int \<Rightarrow> number" where
  "num_of_int i = Fin (of_int i)"

section \<open>Data model\<close>

text \<open>
  \<^verbatim>\<open>SquarifyLayoutRect\<close> and \<^verbatim>\<open>SquarifyLayoutWeightedRect\<close> (which extends it, and
  \<^verbatim>\<open>SquarifyLayoutWeighted\<close>, with \<^verbatim>\<open>weight\<close>). The engine never reads the geometry of an
  item, so the fields an input item does not have yet hold any value.
\<close>

record SquarifyLayoutRect =
  x :: number
  y :: number
  width :: number
  height :: number

record SquarifyLayoutWeightedRect = SquarifyLayoutRect +
  weight :: number

text \<open>
  Items are objects, shared by reference between the caller's array, the sorted working
  copy and the row: an array is a list of references and the objects live in a heap.
\<close>

type_synonym ref = nat

type_synonym heap = "ref \<Rightarrow> SquarifyLayoutWeightedRect"

text \<open>
  What the methods of \<^verbatim>\<open>SquarifyLayout\<close> can write: the item objects and the two
  instance fields. \<open>assigned\<close> is not a variable of the source: it records, in order,
  every assignment of \<^verbatim>\<open>x, y, width, height\<close> to an item (lines 212-222), so that
  "assigned exactly once" can be stated.
\<close>

record memory =
  objs :: heap
  totalRemainingWeightSum :: number
  itemsRemaining :: int
  assigned :: "(ref \<times> SquarifyLayoutRect) list"

text \<open>
  The variables of one call of \<^verbatim>\<open>squarify\<close>: the caller's array \<open>items\<close> (a
  parameter), the locals of lines 66-75, and the memory. \<open>bounds\<close> is an object of the
  caller that \<^verbatim>\<open>updateBoundsForNextRow\<close> changes in place and \<^verbatim>\<open>rootbounds\<close> refers
  to; it is distinct from every item, so it is held by value. \<open>committed\<close> is not a
  variable of the source: it records the row of every call of \<^verbatim>\<open>layoutRow\<close>.
\<close>

record frame =
  items :: "ref list"
  sorted_arr :: "ref list"
  rootbounds :: SquarifyLayoutRect
  lastAspectRatio :: number
  lengthOfShorterEdge :: number
  row :: "ref list"
  mem :: memory
  committed :: "ref list list"

datatype error = EmptyRow

section \<open>The engine\<close>

text \<open>\<^verbatim>\<open>sumWeights\<close> (lines 251-257).\<close>

definition sumWeights :: "heap \<Rightarrow> ref list \<Rightarrow> number" where
  "sumWeights h source = foldl (\<lambda>sum item. num_add sum (weight (h item))) (Fin 0) source"

text \<open>
  \<^verbatim>\<open>[...items].sort((a, b) => b.weight - a.weight)\<close> (line 66): a stable sort of a copy,
  an element moving behind another when the comparator is positive.
\<close>

definition compare_weight :: "heap \<Rightarrow> ref \<Rightarrow> ref \<Rightarrow> number" where
  "compare_weight h a b = num_sub (weight (h b)) (weight (h a))"

fun insert_sorted :: "heap \<Rightarrow> ref \<Rightarrow> ref list \<Rightarrow> ref list" where
  "insert_sorted h a [] = [a]"
| "insert_sorted h a (b # bs) =
     (if num_less (Fin 0) (compare_weight h a b) then b # insert_sorted h a bs
      else a # b # bs)"

definition sort_by_weight :: "heap \<Rightarrow> ref list \<Rightarrow> ref list" where
  "sort_by_weight h source = foldr (insert_sorted h) source []"

text \<open>The body of the loop of lines 153-160, on \<open>(minArea, maxArea, sumOfAreas)\<close>.\<close>

definition area_step ::
  "memory \<Rightarrow> number \<Rightarrow> number \<times> number \<times> number \<Rightarrow> ref \<Rightarrow> number \<times> number \<times> number" where
  "area_step m totalArea acc item =
     (case acc of (minArea, maxArea, sumOfAreas) \<Rightarrow>
        let area = num_mul totalArea
                     (num_div (weight (objs m item)) (totalRemainingWeightSum m))
        in (Math_min area minArea, Math_max area maxArea, num_add sumOfAreas area))"

text \<open>\<^verbatim>\<open>calculateWorstAspectRatioInRow\<close> (lines 116-168); the throw is \<open>Inl EmptyRow\<close>.\<close>

definition calculateWorstAspectRatioInRow ::
  "memory \<Rightarrow> ref list \<Rightarrow> number \<Rightarrow> SquarifyLayoutRect \<Rightarrow> error + number" where
  "calculateWorstAspectRatioInRow m rw shorter bounds =
     (case rw of
        [] \<Rightarrow> Inl EmptyRow
      | firstItem # rest \<Rightarrow>
          if num_eq shorter (Fin 0) then Inr MAX_VALUE
          else
            let totalArea = num_mul (width bounds) (height bounds);
                lengthSquared = num_mul shorter shorter
            in
              if num_eq (totalRemainingWeightSum m) (Fin 0) then
                let oneItemArea =
                      num_mul totalArea (num_div (Fin 1) (num_of_int (itemsRemaining m)));
                    rowAreaSquared =
                      Math_pow2 (num_mul oneItemArea (num_of_nat (length rw)))
                in Inr (Math_max
                          (num_div (num_mul lengthSquared oneItemArea) rowAreaSquared)
                          (num_div rowAreaSquared (num_mul lengthSquared oneItemArea)))
              else
                let firstItemArea =
                      num_mul totalArea
                        (num_div (weight (objs m firstItem)) (totalRemainingWeightSum m))
                in (case foldl (area_step m totalArea)
                            (firstItemArea, firstItemArea, firstItemArea) rest of
                      (minArea, maxArea, sumOfAreas) \<Rightarrow>
                        let sumSquared = num_mul sumOfAreas sumOfAreas
                        in Inr (Math_max
                                  (num_div (num_mul lengthSquared maxArea) sumSquared)
                                  (num_div sumSquared (num_mul lengthSquared minArea)))))"

text \<open>\<^verbatim>\<open>updateBoundsForNextRow\<close> (lines 234-249).\<close>

definition updateBoundsForNextRow :: "SquarifyLayoutRect \<Rightarrow> number \<Rightarrow> SquarifyLayoutRect" where
  "updateBoundsForNextRow bounds modifier =
     (if num_gt (width bounds) (height bounds) then
        let newWidth = Math_max (Fin 0) (num_sub (width bounds) modifier)
        in bounds\<lparr>x := num_sub (x bounds) (num_sub newWidth (width bounds)),
                  width := newWidth\<rparr>
      else
        let newHeight = Math_max (Fin 0) (num_sub (height bounds) modifier)
        in bounds\<lparr>y := num_sub (y bounds) (num_sub newHeight (height bounds)),
                  height := newHeight\<rparr>)"

text \<open>\<open>ratio\<close> of lines 199-208, for an item of weight \<open>w\<close> in a row of \<open>n\<close> items.\<close>

definition item_ratio :: "number \<Rightarrow> number \<Rightarrow> nat \<Rightarrow> number" where
  "item_ratio w sumOfRowWeights n =
     (let ratio = num_div w sumOfRowWeights
      in if isNaN ratio then
           (if num_eq sumOfRowWeights (Fin 0) \<or> isNaN sumOfRowWeights
            then num_div (Fin 1) (num_of_nat n) else Fin 0)
         else ratio)"

text \<open>The rectangle written to an item at lines 212-222.\<close>

definition item_rect ::
  "bool \<Rightarrow> SquarifyLayoutRect \<Rightarrow> number \<Rightarrow> number \<Rightarrow> number \<Rightarrow> SquarifyLayoutRect" where
  "item_rect horizontal bounds position lengthOfItemEdge lengthOfCommonItemEdge =
     (if horizontal then
        \<lparr>x = num_add (x bounds) position, y = y bounds,
         width = lengthOfItemEdge, height = lengthOfCommonItemEdge\<rparr>
      else
        \<lparr>x = x bounds, y = num_add (y bounds) position,
         width = Math_max (Fin 0) lengthOfCommonItemEdge,
         height = Math_max (Fin 0) lengthOfItemEdge\<rparr>)"

definition set_rect :: "SquarifyLayoutWeightedRect \<Rightarrow> SquarifyLayoutRect \<Rightarrow> SquarifyLayoutWeightedRect" where
  "set_rect item r = item\<lparr>x := x r, y := y r, width := width r, height := height r\<rparr>"

text \<open>
  The loop of lines 195-225 over the items of the row still to place, with the running
  \<open>position\<close>; \<open>n\<close> is \<^verbatim>\<open>row.length\<close>.
\<close>

fun layout_items ::
  "bool \<Rightarrow> SquarifyLayoutRect \<Rightarrow> number \<Rightarrow> number \<Rightarrow> number \<Rightarrow> nat \<Rightarrow>
   ref list \<Rightarrow> number \<Rightarrow> memory \<Rightarrow> memory" where
  "layout_items horizontal bounds shorter common sumOfRowWeights n [] position m = m"
| "layout_items horizontal bounds shorter common sumOfRowWeights n (item # rest) position m =
     (let ratio = item_ratio (weight (objs m item)) sumOfRowWeights n;
          lengthOfItemEdge = num_mul shorter ratio;
          r = item_rect horizontal bounds position lengthOfItemEdge common
      in layout_items horizontal bounds shorter common sumOfRowWeights n rest
           (num_add position lengthOfItemEdge)
           (m\<lparr>objs := (objs m)(item := set_rect (objs m item) r),
              itemsRemaining := itemsRemaining m - 1,
              assigned := assigned m @ [(item, r)]\<rparr>))"

text \<open>\<open>lengthOfCommonItemEdge\<close> of lines 181-191.\<close>

definition common_edge :: "memory \<Rightarrow> number \<Rightarrow> number \<Rightarrow> nat \<Rightarrow> number" where
  "common_edge m lengthOfLongerEdge sumOfRowWeights n =
     (let c = num_mul lengthOfLongerEdge
                (num_div sumOfRowWeights (totalRemainingWeightSum m))
      in if isNaN c then
           (if num_eq (totalRemainingWeightSum m) (Fin 0)
            then num_div (num_mul lengthOfLongerEdge (num_of_nat n))
                   (num_of_int (itemsRemaining m))
            else Fin 0)
         else c)"

text \<open>\<^verbatim>\<open>layoutRow\<close> (lines 170-232): the memory afterwards and the bounds returned.\<close>

definition layoutRow ::
  "memory \<Rightarrow> ref list \<Rightarrow> number \<Rightarrow> SquarifyLayoutRect \<Rightarrow> memory \<times> SquarifyLayoutRect" where
  "layoutRow m rw shorter bounds =
     (let horizontal = num_eq shorter (width bounds);
          lengthOfLongerEdge = (if horizontal then height bounds else width bounds);
          sumOfRowWeights = sumWeights (objs m) rw;
          common = common_edge m lengthOfLongerEdge sumOfRowWeights (length rw);
          m1 = layout_items horizontal bounds shorter common sumOfRowWeights
                 (length rw) rw (Fin 0) m;
          m2 = m1\<lparr>totalRemainingWeightSum :=
                    num_sub (totalRemainingWeightSum m1) sumOfRowWeights\<rparr>
      in (m2, updateBoundsForNextRow bounds common))"

text \<open>The state at line 76, before the loop.\<close>

definition init :: "heap \<Rightarrow> ref list \<Rightarrow> SquarifyLayoutRect \<Rightarrow> frame" where
  "init h its bounds =
     (let srt = sort_by_weight h its
      in \<lparr>items = its, sorted_arr = srt, rootbounds = bounds,
          lastAspectRatio = POSITIVE_INFINITY,
          lengthOfShorterEdge = Math_min (width bounds) (height bounds),
          row = [],
          mem = \<lparr>objs = h, totalRemainingWeightSum = sumWeights h srt,
                 itemsRemaining = int (length srt), assigned = []\<rparr>,
          committed = []\<rparr>)"

text \<open>Lines 98-111: the row is laid out and the locals are reset.\<close>

definition draw_row :: "frame \<Rightarrow> frame" where
  "draw_row s =
     (case layoutRow (mem s) (row s) (lengthOfShorterEdge s) (rootbounds s) of
        (m, b) \<Rightarrow>
          s\<lparr>mem := m, rootbounds := b,
            lastAspectRatio := POSITIVE_INFINITY,
            lengthOfShorterEdge := Math_min (width b) (height b),
            committed := committed s @ [row s],
            row := []\<rparr>)"

text \<open>
  One pass of the loop body (lines 78-112), entered with \<open>sorted_arr\<close> non-empty:
  \<^verbatim>\<open>shift\<close> takes its head, \<^verbatim>\<open>push\<close> appends to the row, and on rejection \<^verbatim>\<open>pop\<close>
  and \<^verbatim>\<open>unshift\<close> move the last item of the row back to the front.
\<close>

definition loop_body :: "frame \<Rightarrow> error + frame" where
  "loop_body s =
     (let nextItem = hd (sorted_arr s);
          s1 = s\<lparr>sorted_arr := tl (sorted_arr s), row := row s @ [nextItem]\<rparr>
      in case calculateWorstAspectRatioInRow (mem s1) (row s1)
                (lengthOfShorterEdge s1) (rootbounds s1) of
           Inl e \<Rightarrow> Inl e
         | Inr aspectRatio \<Rightarrow>
             if num_ge (lastAspectRatio s1) aspectRatio \<or> isNaN aspectRatio then
               let s2 = s1\<lparr>lastAspectRatio := aspectRatio\<rparr>
               in if sorted_arr s2 = [] then Inr (draw_row s2) else Inr s2
             else
               Inr (draw_row (s1\<lparr>sorted_arr := last (row s1) # sorted_arr s1,
                                  row := butlast (row s1)\<rparr>)))"

text \<open>
  The while loop of lines 77-113. It ends: a pass either takes an item from
  \<open>sorted_arr\<close> for good, or rejects it, and it can only reject when
  \<open>lastAspectRatio\<close> is not \<open>+\<infinity>\<close>, which the rejection makes it again.
\<close>

definition loop_measure :: "frame \<Rightarrow> nat" where
  "loop_measure s =
     2 * length (sorted_arr s) + (if lastAspectRatio s = PInf then 0 else 1)"

function squarify_loop :: "frame \<Rightarrow> error + frame" where
  "squarify_loop s =
     (if sorted_arr s = [] then Inr s
      else case loop_body s of
             Inl e \<Rightarrow> Inl e
           | Inr s' \<Rightarrow> squarify_loop s')"
  by pat_completeness auto

termination squarify_loop
proof (relation "measure loop_measure")
  show "wf (measure loop_measure)" by simp
next
  fix s :: frame and s' :: frame
  assume ne: "sorted_arr s \<noteq> []" and body: "loop_body s = Inr s'"
  obtain a rest where sa: "sorted_arr s = a # rest"
    using ne by (cases "sorted_arr s") auto
  have ge: "num_ge PInf c = (\<not> isNaN c)" for c
    by (cases c) (simp_all add: num_ge_def)
  have dr: "sorted_arr (draw_row u) = sorted_arr u \<and> lastAspectRatio (draw_row u) = PInf" for u
    by (simp add: draw_row_def POSITIVE_INFINITY_def split: prod.splits)
  have "loop_measure s' < loop_measure s"
    using body sa
    by (auto simp: loop_body_def Let_def loop_measure_def dr ge split: sum.splits if_splits)
  then show "(s', s) \<in> measure loop_measure" by simp
qed

declare squarify_loop.simps [simp del]

text \<open>
  \<^verbatim>\<open>squarify\<close> (lines 62-114), on the heap \<open>h\<close> of the item objects: the result is
  the thrown error, or the variables and the memory when the loop has ended.
\<close>

definition squarify :: "heap \<Rightarrow> ref list \<Rightarrow> SquarifyLayoutRect \<Rightarrow> error + frame" where
  "squarify h its bounds = squarify_loop (init h its bounds)"

text \<open>
  The states the loop passes through at its head (line 77), from \<open>s0\<close>: "throughout
  the run".
\<close>

inductive run_from :: "frame \<Rightarrow> frame \<Rightarrow> bool" for s0 :: frame where
  start: "run_from s0 s0"
| pass: "run_from s0 s \<Longrightarrow> sorted_arr s \<noteq> [] \<Longrightarrow> loop_body s = Inr s' \<Longrightarrow> run_from s0 s'"

section \<open>Inside a pass\<close>

text \<open>
  Lines 78-95 of a pass alone: the frame after the item has been taken into the row or
  put back, and \<^verbatim>\<open>drawRow\<close>.
\<close>

definition choose_row :: "frame \<Rightarrow> error + frame \<times> bool" where
  "choose_row s =
     (let nextItem = hd (sorted_arr s);
          s1 = s\<lparr>sorted_arr := tl (sorted_arr s), row := row s @ [nextItem]\<rparr>
      in case calculateWorstAspectRatioInRow (mem s1) (row s1)
                (lengthOfShorterEdge s1) (rootbounds s1) of
           Inl e \<Rightarrow> Inl e
         | Inr aspectRatio \<Rightarrow>
             if num_ge (lastAspectRatio s1) aspectRatio \<or> isNaN aspectRatio then
               Inr (s1\<lparr>lastAspectRatio := aspectRatio\<rparr>, sorted_arr s1 = [])
             else
               Inr (s1\<lparr>sorted_arr := last (row s1) # sorted_arr s1,
                        row := butlast (row s1)\<rparr>, True))"

text \<open>
  The memories at the test \<^verbatim>\<open>i < rowCount\<close> of the loop of lines 195-225, for
  \<open>i = 0, \<dots>, rowCount\<close>: the states inside \<^verbatim>\<open>layoutRow\<close>, before line 227.
\<close>

fun layout_trace ::
  "bool \<Rightarrow> SquarifyLayoutRect \<Rightarrow> number \<Rightarrow> number \<Rightarrow> number \<Rightarrow> nat \<Rightarrow>
   ref list \<Rightarrow> number \<Rightarrow> memory \<Rightarrow> memory list" where
  "layout_trace horizontal bounds shorter common sumOfRowWeights n [] position m = [m]"
| "layout_trace horizontal bounds shorter common sumOfRowWeights n (item # rest) position m =
     (let ratio = item_ratio (weight (objs m item)) sumOfRowWeights n;
          lengthOfItemEdge = num_mul shorter ratio;
          r = item_rect horizontal bounds position lengthOfItemEdge common
      in m # layout_trace horizontal bounds shorter common sumOfRowWeights n rest
           (num_add position lengthOfItemEdge)
           (m\<lparr>objs := (objs m)(item := set_rect (objs m item) r),
              itemsRemaining := itemsRemaining m - 1,
              assigned := assigned m @ [(item, r)]\<rparr>))"

text \<open>The same for the call of \<^verbatim>\<open>layoutRow\<close> on the row of a frame (lines 98-102).\<close>

definition row_trace :: "frame \<Rightarrow> memory list" where
  "row_trace u =
     (let bounds = rootbounds u;
          shorter = lengthOfShorterEdge u;
          horizontal = num_eq shorter (width bounds);
          lengthOfLongerEdge = (if horizontal then height bounds else width bounds);
          sumOfRowWeights = sumWeights (objs (mem u)) (row u);
          common = common_edge (mem u) lengthOfLongerEdge sumOfRowWeights (length (row u))
      in layout_trace horizontal bounds shorter common sumOfRowWeights
           (length (row u)) (row u) (Fin 0) (mem u))"

text \<open>
  The memories a run from \<open>s0\<close> passes through: at the head of the main loop, and inside
  every call of \<^verbatim>\<open>layoutRow\<close> at the head of its loop.
\<close>

inductive during :: "frame \<Rightarrow> memory \<Rightarrow> bool" for s0 :: frame where
  at_head: "run_from s0 s \<Longrightarrow> during s0 (mem s)"
| in_row: "run_from s0 s \<Longrightarrow> sorted_arr s \<noteq> [] \<Longrightarrow> choose_row s = Inr (u, True) \<Longrightarrow>
           m \<in> set (row_trace u) \<Longrightarrow> during s0 m"

text \<open>
  The divisors of the divisions that \<^verbatim>\<open>calculateWorstAspectRatioInRow\<close> evaluates, in
  order: none when it throws or returns at line 129; lines 138, 141 and 142 when the
  remaining weight is 0; otherwise lines 148 and 156 for each item of the row and lines
  165 and 166.
\<close>

definition calc_divisors ::
  "memory \<Rightarrow> ref list \<Rightarrow> number \<Rightarrow> SquarifyLayoutRect \<Rightarrow> number list" where
  "calc_divisors m rw shorter bounds =
     (case rw of
        [] \<Rightarrow> []
      | firstItem # rest \<Rightarrow>
          if num_eq shorter (Fin 0) then []
          else
            let totalArea = num_mul (width bounds) (height bounds);
                lengthSquared = num_mul shorter shorter
            in
              if num_eq (totalRemainingWeightSum m) (Fin 0) then
                let oneItemArea =
                      num_mul totalArea (num_div (Fin 1) (num_of_int (itemsRemaining m)));
                    rowAreaSquared =
                      Math_pow2 (num_mul oneItemArea (num_of_nat (length rw)))
                in [num_of_int (itemsRemaining m), rowAreaSquared,
                    num_mul lengthSquared oneItemArea]
              else
                let firstItemArea =
                      num_mul totalArea
                        (num_div (weight (objs m firstItem)) (totalRemainingWeightSum m))
                in (case foldl (area_step m totalArea)
                            (firstItemArea, firstItemArea, firstItemArea) rest of
                      (minArea, maxArea, sumOfAreas) \<Rightarrow>
                        map (\<lambda>item. totalRemainingWeightSum m) rw @
                        [num_mul sumOfAreas sumOfAreas, num_mul lengthSquared minArea]))"

text \<open>
  The divisors of the divisions that \<^verbatim>\<open>layoutRow\<close> evaluates, in order: line 183, line 187
  when it is reached, and for each item of the row line 199 and, when it is reached,
  line 204. (The weights read at line 197 are those of the memory before the call.)
\<close>

definition layoutRow_divisors ::
  "memory \<Rightarrow> ref list \<Rightarrow> number \<Rightarrow> SquarifyLayoutRect \<Rightarrow> number list" where
  "layoutRow_divisors m rw shorter bounds =
     (let horizontal = num_eq shorter (width bounds);
          lengthOfLongerEdge = (if horizontal then height bounds else width bounds);
          sumOfRowWeights = sumWeights (objs m) rw;
          c = num_mul lengthOfLongerEdge
                (num_div sumOfRowWeights (totalRemainingWeightSum m))
      in [totalRemainingWeightSum m] @
         (if isNaN c \<and> num_eq (totalRemainingWeightSum m) (Fin 0)
          then [num_of_int (itemsRemaining m)] else []) @
         concat (map (\<lambda>item.
             sumOfRowWeights #
             (if isNaN (num_div (weight (objs m item)) sumOfRowWeights) \<and>
                 (num_eq sumOfRowWeights (Fin 0) \<or> isNaN sumOfRowWeights)
              then [num_of_nat (length rw)] else [])) rw))"

text \<open>
  The divisors of the run from \<open>s0\<close>: those of the probe of every pass (line 81) and of
  every row laid out (line 98).
\<close>

inductive divides_by :: "frame \<Rightarrow> number \<Rightarrow> bool" for s0 :: frame where
  in_probe: "run_from s0 s \<Longrightarrow> sorted_arr s \<noteq> [] \<Longrightarrow>
             d \<in> set (calc_divisors (mem s) (row s @ [hd (sorted_arr s)])
                        (lengthOfShorterEdge s) (rootbounds s)) \<Longrightarrow>
             divides_by s0 d"
| in_layout: "run_from s0 s \<Longrightarrow> sorted_arr s \<noteq> [] \<Longrightarrow> choose_row s = Inr (u, True) \<Longrightarrow>
              d \<in> set (layoutRow_divisors (mem u) (row u) (lengthOfShorterEdge u)
                         (rootbounds u)) \<Longrightarrow>
              divides_by s0 d"

section \<open>Observations on the result\<close>

text \<open>
  The area \<^verbatim>\<open>width * height\<close> of a rectangle or an item, and the sum of the areas of the
  objects of a list of items, both computed with the arithmetic of the engine.
\<close>

definition area :: "'a SquarifyLayoutRect_scheme \<Rightarrow> number" where
  "area r = num_mul (width r) (height r)"

definition sum_areas :: "heap \<Rightarrow> ref list \<Rightarrow> number" where
  "sum_areas h rs = foldl (\<lambda>sum item. num_add sum (area (h item))) (Fin 0) rs"

text \<open>
  The item objects after the call, and the rows laid out by it. (\<^verbatim>\<open>squarify\<close> throws on
  no input; for an error the heap would be the one before and there would be no row.)
\<close>

definition heap_after :: "heap \<Rightarrow> ref list \<Rightarrow> SquarifyLayoutRect \<Rightarrow> heap" where
  "heap_after h its bounds = (case squarify h its bounds of Inr s \<Rightarrow> objs (mem s) | Inl e \<Rightarrow> h)"

definition rows_after :: "heap \<Rightarrow> ref list \<Rightarrow> SquarifyLayoutRect \<Rightarrow> ref list list" where
  "rows_after h its bounds = (case squarify h its bounds of Inr s \<Rightarrow> committed s | Inl e \<Rightarrow> [])"

text \<open>
  A finite number that is not negative: what a weight and the width and height of the
  bounds are for a valid input. \<open>fin_val\<close> is the value of a finite number (0 for the
  others), \<open>wv h r\<close> the value of the weight of the object \<open>r\<close>.
\<close>

fun fin_nonneg :: "number \<Rightarrow> bool" where
  "fin_nonneg (Fin a) = (0 \<le> a)"
| "fin_nonneg _ = False"

fun fin_val :: "number \<Rightarrow> rat" where
  "fin_val (Fin a) = a"
| "fin_val _ = 0"

definition wv :: "heap \<Rightarrow> ref \<Rightarrow> rat" where
  "wv h r = fin_val (weight (h r))"

text \<open>The items not yet assigned a rectangle: those of the input without the placements.\<close>

definition unplaced :: "ref list \<Rightarrow> memory \<Rightarrow> ref multiset" where
  "unplaced its m = mset its - mset (map fst (assigned m))"

section \<open>Example inputs\<close>

text \<open>
  The worked example of the repository: items of weights 3, 2 and 1 (the objects 0, 1
  and 2 of the heap) in a square of side 100.
\<close>

definition example_heap :: heap where
  "example_heap =
     (\<lambda>r. \<lparr>x = NaN, y = NaN, width = NaN, height = NaN,
           weight = (if r = 0 then Fin 3 else if r = 1 then Fin 2 else Fin 1)\<rparr>)"

definition example_bounds :: SquarifyLayoutRect where
  "example_bounds = \<lparr>x = Fin 0, y = Fin 0, width = Fin 100, height = Fin 100\<rparr>"

text \<open>The bounds of the spec's degenerate example: width 0, height 10.\<close>

definition flat_bounds :: SquarifyLayoutRect where
  "flat_bounds = \<lparr>x = Fin 0, y = Fin 0, width = Fin 0, height = Fin 10\<rparr>"

text \<open>Items that all have weight 0.\<close>

definition zero_heap :: heap where
  "zero_heap = (\<lambda>r. \<lparr>x = NaN, y = NaN, width = NaN, height = NaN, weight = Fin 0\<rparr>)"

text \<open>
  The frame whose row is laid out in the run on the items of weights 3 and 2 in bounds of
  width 0 and height 10: both items are in the row.
\<close>

definition flat_row_frame :: frame where
  "flat_row_frame =
     (init example_heap [0, 1] flat_bounds)
       \<lparr>sorted_arr := [], row := [0, 1], lastAspectRatio := MAX_VALUE\<rparr>"

text \<open>
  The state the engine is in, in IEEE double arithmetic, before its third call of
  \<^verbatim>\<open>layoutRow\<close> on the items of weights 1, \<open>10\<^sup>1\<^sup>6\<close> and 5 (the objects 0, 1 and 2) in
  bounds of width 4 and height 100: line 68 rounds \<open>10\<^sup>1\<^sup>6 + 5 + 1\<close> to \<open>10\<^sup>1\<^sup>6 + 4\<close>, line
  227 leaves 4 after the first row and \<open>4 - 5 = -1\<close> after the second, and the bounds
  are left with width 0 and height \<open>3 / 2\<^sup>4\<^sup>6\<close>. The row is the object 0. (The geometry
  already assigned to the objects 1 and 2 is left out: \<^verbatim>\<open>layoutRow\<close> reads none.)
\<close>

definition rounded_heap :: heap where
  "rounded_heap =
     (\<lambda>r. \<lparr>x = NaN, y = NaN, width = NaN, height = NaN,
           weight = (if r = 0 then Fin 1 else if r = 1 then Fin (10 ^ 16) else Fin 5)\<rparr>)"

definition rounded_memory :: memory where
  "rounded_memory =
     \<lparr>objs = rounded_heap, totalRemainingWeightSum = Fin (- 1), itemsRemaining = 1,
      assigned = []\<rparr>"

definition rounded_bounds :: SquarifyLayoutRect where
  "rounded_bounds =
     \<lparr>x = Fin 4, y = Fin (7036874417766397 / 70368744177664), width = Fin 0,
      height = Fin (3 / 70368744177664)\<rparr>"

section \<open>Invariants of the loop\<close>

text \<open>The geometry of an item object, as a rectangle.\<close>

definition rect_of :: "SquarifyLayoutWeightedRect \<Rightarrow> SquarifyLayoutRect" where
  "rect_of item = \<lparr>x = x item, y = y item, width = width item, height = height item\<rparr>"

text \<open>The geometry an object holds is one that was assigned to it.\<close>

definition last_write :: "memory \<Rightarrow> bool" where
  "last_write m \<longleftrightarrow>
     (\<forall>e \<in> set (assigned m). (fst e, rect_of (objs m (fst e))) \<in> set (assigned m))"

text \<open>
  What holds at the head of the loop for every input, whatever the numbers are: the
  caller's array is untouched, the items placed, in the row and still in the working
  list are together the items of the input, the rows laid out are non-empty and make up
  the placements, no weight has changed, and \<open>itemsRemaining\<close> counts the unplaced
  items.
\<close>

definition struct_inv :: "heap \<Rightarrow> ref list \<Rightarrow> frame \<Rightarrow> bool" where
  "struct_inv h its s \<longleftrightarrow>
     items s = its \<and>
     mset (map fst (assigned (mem s))) + mset (row s @ sorted_arr s) = mset its \<and>
     concat (committed s) = map fst (assigned (mem s)) \<and>
     [] \<notin> set (committed s) \<and>
     (\<forall>r. weight (objs (mem s) r) = weight (h r)) \<and>
     itemsRemaining (mem s) = int (length (row s @ sorted_arr s)) \<and>
     last_write (mem s)"

text \<open>
  With finite non-negative weights: the weights of the unplaced items are such, and
  \<open>totalRemainingWeightSum\<close> is their sum.
\<close>

definition sum_inv :: "frame \<Rightarrow> bool" where
  "sum_inv s \<longleftrightarrow>
     (\<forall>r \<in> set (row s @ sorted_arr s). fin_nonneg (weight (objs (mem s) r))) \<and>
     totalRemainingWeightSum (mem s) = sumWeights (objs (mem s)) (row s @ sorted_arr s)"

definition count_inv :: "heap \<Rightarrow> ref list \<Rightarrow> frame \<Rightarrow> bool" where
  "count_inv h its s \<longleftrightarrow> struct_inv h its s \<and> sum_inv s"

text \<open>
  With finite non-negative bounds as well: the remaining bounds stay finite and
  non-negative, \<open>lengthOfShorterEdge\<close> is their shorter edge, and every rectangle
  assigned has a finite non-negative width and height.
\<close>

definition num_inv :: "frame \<Rightarrow> bool" where
  "num_inv s \<longleftrightarrow>
     (\<forall>r \<in> set (row s @ sorted_arr s). fin_nonneg (weight (objs (mem s) r))) \<and>
     totalRemainingWeightSum (mem s) = sumWeights (objs (mem s)) (row s @ sorted_arr s) \<and>
     fin_nonneg (width (rootbounds s)) \<and> fin_nonneg (height (rootbounds s)) \<and>
     lengthOfShorterEdge s = Math_min (width (rootbounds s)) (height (rootbounds s)) \<and>
     (\<forall>e \<in> set (assigned (mem s)). fin_nonneg (width (snd e)) \<and> fin_nonneg (height (snd e)))"

definition base_inv :: "heap \<Rightarrow> ref list \<Rightarrow> frame \<Rightarrow> bool" where
  "base_inv h its s \<longleftrightarrow> struct_inv h its s \<and> num_inv s"

text \<open>
  The values the area invariants speak of: the area of the remaining bounds, the area of
  an assigned rectangle, and the remaining weight.
\<close>

definition bounds_area :: "frame \<Rightarrow> rat" where
  "bounds_area s = fin_val (width (rootbounds s)) * fin_val (height (rootbounds s))"

definition rect_area :: "SquarifyLayoutRect \<Rightarrow> rat" where
  "rect_area r = fin_val (width r) * fin_val (height r)"

definition remaining_weight :: "frame \<Rightarrow> rat" where
  "remaining_weight s = fin_val (totalRemainingWeightSum (mem s))"

text \<open>
  What laying out a row of \<open>n\<close> items of weight sum \<open>\<sigma>\<close> takes, with \<open>R\<close> the remaining
  weight and \<open>M\<close> the remaining count: \<open>row_share\<close> is the fraction of the longer edge
  that becomes the common edge of the row, \<open>item_share\<close> the fraction of the area of the
  remaining bounds that an item of weight \<open>w\<close> gets (lines 181-191 and 199-208, on finite
  numbers).
\<close>

definition row_share :: "rat \<Rightarrow> int \<Rightarrow> rat \<Rightarrow> nat \<Rightarrow> rat" where
  "row_share R M \<sigma> n = (if R = 0 then of_nat n / of_int M else \<sigma> / R)"

definition item_share :: "rat \<Rightarrow> int \<Rightarrow> rat \<Rightarrow> rat" where
  "item_share R M w = (if R = 0 then 1 / of_int M else w / R)"

text \<open>
  Areas stay proportional to weights: with \<open>T\<close> the total weight and \<open>A\<close> the area of
  the bounds passed, the remaining bounds have the area of the remaining weight, and
  every rectangle assigned has the area of the weight of its item.
\<close>

definition area_inv :: "rat \<Rightarrow> rat \<Rightarrow> heap \<Rightarrow> frame \<Rightarrow> bool" where
  "area_inv T A h s \<longleftrightarrow>
     bounds_area s * T = A * remaining_weight s \<and>
     (\<forall>e \<in> set (assigned (mem s)). rect_area (snd e) * T = A * wv h (fst e))"

text \<open>
  When all the weights are 0: with \<open>N\<close> the number of items, the remaining bounds have
  the area of the remaining count, and every rectangle assigned has the area \<open>A / N\<close>.
\<close>

definition even_inv :: "rat \<Rightarrow> rat \<Rightarrow> frame \<Rightarrow> bool" where
  "even_inv N A s \<longleftrightarrow>
     bounds_area s * N = A * of_int (itemsRemaining (mem s)) \<and>
     remaining_weight s = 0 \<and>
     (\<forall>e \<in> set (assigned (mem s)). rect_area (snd e) * N = A)"

text \<open>When the bounds have no area, neither has any rectangle assigned.\<close>

definition zero_inv :: "frame \<Rightarrow> bool" where
  "zero_inv s \<longleftrightarrow>
     bounds_area s = 0 \<and> (\<forall>e \<in> set (assigned (mem s)). rect_area (snd e) = 0)"

section \<open>The loop and its rules\<close>

lemma num_ge_PInf: "num_ge PInf a = (\<not> isNaN a)"
  by (cases a) (simp_all add: num_ge_def)

lemma draw_row_sorted_arr: "sorted_arr (draw_row s) = sorted_arr s"
  by (simp add: draw_row_def split: prod.splits)

lemma draw_row_lastAspectRatio: "lastAspectRatio (draw_row s) = PInf"
  by (simp add: draw_row_def POSITIVE_INFINITY_def split: prod.splits)

lemma draw_row_row: "row (draw_row s) = []"
  by (simp add: draw_row_def split: prod.splits)

lemma calc_nonempty:
  "rw \<noteq> [] \<Longrightarrow> \<exists>a. calculateWorstAspectRatioInRow m rw sh b = Inr a"
  by (cases rw) (auto simp: calculateWorstAspectRatioInRow_def Let_def split: prod.splits)

text \<open>
  A property of the frame that does not depend on how the unplaced items are split
  between the row and the working list, nor on \<open>lastAspectRatio\<close>, and that laying out
  a non-empty row keeps, holds after every pass; the pass throws nothing.
\<close>

lemma loop_body_rule:
  assumes split_indep: "\<And>s rw sa la. P s \<Longrightarrow> rw @ sa = row s @ sorted_arr s \<Longrightarrow>
            P (s\<lparr>sorted_arr := sa, row := rw, lastAspectRatio := la\<rparr>)"
    and draw: "\<And>s. P s \<Longrightarrow> row s \<noteq> [] \<Longrightarrow> P (draw_row s)"
    and P: "P s" and ne: "sorted_arr s \<noteq> []"
    and fresh: "row s = [] \<longrightarrow> lastAspectRatio s = PInf"
  shows "\<exists>s'. loop_body s = Inr s' \<and> P s' \<and> (row s' = [] \<longrightarrow> lastAspectRatio s' = PInf)
           \<and> (sorted_arr s' = [] \<longrightarrow> row s' = [])"
proof -
  obtain a rest where sa: "sorted_arr s = a # rest"
    using ne by (cases "sorted_arr s") auto
  obtain ar where ar: "calculateWorstAspectRatioInRow (mem s) (row s @ [a])
                (lengthOfShorterEdge s) (rootbounds s) = Inr ar"
    using calc_nonempty[of "row s @ [a]" "mem s" "lengthOfShorterEdge s" "rootbounds s"]
    by auto
  show ?thesis
  proof (cases "num_ge (lastAspectRatio s) ar \<or> isNaN ar")
    case True
    define s2 where "s2 = s\<lparr>sorted_arr := rest, row := row s @ [a], lastAspectRatio := ar\<rparr>"
    have P2: "P s2" unfolding s2_def by (rule split_indep[OF P]) (simp add: sa)
    have r2: "row s2 \<noteq> []" by (simp add: s2_def)
    have lb: "loop_body s = (if rest = [] then Inr (draw_row s2) else Inr s2)"
      using True ar by (simp add: loop_body_def Let_def sa s2_def)
    show ?thesis
      using lb P2 r2 draw[OF P2 r2]
      by (auto simp: draw_row_row draw_row_lastAspectRatio draw_row_sorted_arr s2_def)
  next
    case False
    define s3 where "s3 = s\<lparr>sorted_arr := a # rest, row := row s, lastAspectRatio := lastAspectRatio s\<rparr>"
    have P3: "P s3" unfolding s3_def by (rule split_indep[OF P]) (simp add: sa)
    have "lastAspectRatio s \<noteq> PInf"
      using False by (auto simp: num_ge_PInf)
    then have r3: "row s3 \<noteq> []" using fresh by (auto simp: s3_def)
    have lb: "loop_body s = Inr (draw_row s3)"
      using False ar by (simp add: loop_body_def Let_def sa s3_def)
    show ?thesis
      using lb draw[OF P3 r3]
      by (auto simp: draw_row_row draw_row_lastAspectRatio draw_row_sorted_arr s3_def)
  qed
qed

lemma squarify_loop_rule:
  assumes split_indep: "\<And>s rw sa la. P s \<Longrightarrow> rw @ sa = row s @ sorted_arr s \<Longrightarrow>
            P (s\<lparr>sorted_arr := sa, row := rw, lastAspectRatio := la\<rparr>)"
    and draw: "\<And>s. P s \<Longrightarrow> row s \<noteq> [] \<Longrightarrow> P (draw_row s)"
  shows "P s \<Longrightarrow> row s = [] \<longrightarrow> lastAspectRatio s = PInf \<Longrightarrow> sorted_arr s = [] \<longrightarrow> row s = [] \<Longrightarrow>
     \<exists>s'. squarify_loop s = Inr s' \<and> P s' \<and> sorted_arr s' = [] \<and> row s' = []"
proof (induction s rule: squarify_loop.induct)
  case (1 s)
  show ?case
  proof (cases "sorted_arr s = []")
    case True
    then show ?thesis using "1.prems" by (simp add: squarify_loop.simps)
  next
    case False
    from loop_body_rule[of P, OF split_indep draw "1.prems"(1) False "1.prems"(2)]
    obtain s1 where s1: "loop_body s = Inr s1" "P s1" "row s1 = [] \<longrightarrow> lastAspectRatio s1 = PInf"
      "sorted_arr s1 = [] \<longrightarrow> row s1 = []" by blast
    from "1.IH"[OF False s1(1) s1(2) s1(3) s1(4)]
    show ?thesis using False s1(1) by (simp add: squarify_loop.simps[of s])
  qed
qed

lemma run_from_rule:
  assumes split_indep: "\<And>s rw sa la. P s \<Longrightarrow> rw @ sa = row s @ sorted_arr s \<Longrightarrow>
            P (s\<lparr>sorted_arr := sa, row := rw, lastAspectRatio := la\<rparr>)"
    and draw: "\<And>s. P s \<Longrightarrow> row s \<noteq> [] \<Longrightarrow> P (draw_row s)"
    and P0: "P s0" and f0: "row s0 = [] \<longrightarrow> lastAspectRatio s0 = PInf"
    and run: "run_from s0 s"
  shows "P s \<and> (row s = [] \<longrightarrow> lastAspectRatio s = PInf)"
  using run
proof (induction rule: run_from.induct)
  case start
  then show ?case using P0 f0 by simp
next
  case (pass s s')
  from loop_body_rule[of P, OF split_indep draw _ pass(2)] pass(3,4)
  show ?case by fastforce
qed

section \<open>Effects of laying out a row\<close>

lemma li_total:
  "totalRemainingWeightSum (layout_items hz b sh c S n rs p m) = totalRemainingWeightSum m"
  by (induction rs arbitrary: p m) (simp_all add: Let_def)

lemma li_itemsRemaining:
  "itemsRemaining (layout_items hz b sh c S n rs p m) = itemsRemaining m - int (length rs)"
  by (induction rs arbitrary: p m) (simp_all add: Let_def)

lemma li_weight:
  "weight (objs (layout_items hz b sh c S n rs p m) r) = weight (objs m r)"
  by (induction rs arbitrary: p m) (simp_all add: Let_def set_rect_def)

lemma li_refs:
  "map fst (assigned (layout_items hz b sh c S n rs p m)) = map fst (assigned m) @ rs"
  by (induction rs arbitrary: p m) (simp_all add: Let_def)

lemma rect_of_set_rect: "rect_of (set_rect it rc) = rc"
  by (simp add: rect_of_def set_rect_def)

lemma li_last_write:
  "last_write m \<Longrightarrow> last_write (layout_items hz b sh c S n rs p m)"
proof (induction rs arbitrary: p m)
  case Nil
  then show ?case by simp
next
  case (Cons item rest)
  show ?case
    unfolding layout_items.simps Let_def
    by (rule Cons.IH) (use Cons.prems in \<open>auto simp: last_write_def rect_of_set_rect\<close>)
qed

text \<open>The rectangles the loop assigns: the sizes depend on the weight alone.\<close>

lemma li_sizes:
  "\<exists>new. assigned (layout_items hz b sh c S n rs p m) = assigned m @ new \<and>
         map fst new = rs \<and>
         (\<forall>e \<in> set new.
            width (snd e) = (if hz then num_mul sh (item_ratio (weight (objs m (fst e))) S n)
                             else Math_max (Fin 0) c) \<and>
            height (snd e) = (if hz then c
                              else Math_max (Fin 0) (num_mul sh (item_ratio (weight (objs m (fst e))) S n))))"
proof (induction rs arbitrary: p m)
  case Nil
  then show ?case by simp
next
  case (Cons item rest)
  define rc where "rc = item_rect hz b p (num_mul sh (item_ratio (weight (objs m item)) S n)) c"
  define m' where "m' = m\<lparr>objs := (objs m)(item := set_rect (objs m item) rc),
              itemsRemaining := itemsRemaining m - 1,
              assigned := assigned m @ [(item, rc)]\<rparr>"
  have step: "layout_items hz b sh c S n (item # rest) p m =
      layout_items hz b sh c S n rest (num_add p (num_mul sh (item_ratio (weight (objs m item)) S n))) m'"
    by (simp add: Let_def m'_def rc_def)
  have w: "weight (objs m' r) = weight (objs m r)" for r
    by (simp add: m'_def set_rect_def)
  from Cons.IH[of "num_add p (num_mul sh (item_ratio (weight (objs m item)) S n))" m']
  obtain new where new: "assigned (layout_items hz b sh c S n rest
       (num_add p (num_mul sh (item_ratio (weight (objs m item)) S n))) m') = assigned m' @ new"
     "map fst new = rest"
     "\<forall>e \<in> set new.
            width (snd e) = (if hz then num_mul sh (item_ratio (weight (objs m (fst e))) S n)
                             else Math_max (Fin 0) c) \<and>
            height (snd e) = (if hz then c
                              else Math_max (Fin 0) (num_mul sh (item_ratio (weight (objs m (fst e))) S n)))"
    unfolding w by blast
  have rcw: "width rc = (if hz then num_mul sh (item_ratio (weight (objs m item)) S n)
                             else Math_max (Fin 0) c)"
    and rch: "height rc = (if hz then c
                              else Math_max (Fin 0) (num_mul sh (item_ratio (weight (objs m item)) S n)))"
    by (simp_all add: rc_def item_rect_def)
  have f1: "assigned (layout_items hz b sh c S n (item # rest) p m) = assigned m @ ((item, rc) # new)"
    unfolding step new(1) by (simp add: m'_def)
  have f2: "map fst ((item, rc) # new) = item # rest"
    using new(2) by simp
  have f3: "\<forall>e \<in> set ((item, rc) # new).
            width (snd e) = (if hz then num_mul sh (item_ratio (weight (objs m (fst e))) S n)
                             else Math_max (Fin 0) c) \<and>
            height (snd e) = (if hz then c
                              else Math_max (Fin 0) (num_mul sh (item_ratio (weight (objs m (fst e))) S n)))"
    using new(3) rcw rch by simp
  show ?case
    by (rule exI[where x = "(item, rc) # new"]) (intro conjI f1 f2 f3)
qed

section \<open>The structural invariant\<close>

lemma mset_insert_sorted: "mset (insert_sorted h a bs) = add_mset a (mset bs)"
  by (induction bs) simp_all

lemma mset_sort_by_weight: "mset (sort_by_weight h its) = mset its"
  by (induction its) (simp_all add: sort_by_weight_def mset_insert_sorted)

lemma struct_inv_init: "struct_inv h its (init h its b)"
  by (simp add: struct_inv_def init_def Let_def mset_sort_by_weight last_write_def)

lemma struct_inv_split:
  "struct_inv h its s \<Longrightarrow> rw @ sa = row s @ sorted_arr s \<Longrightarrow>
   struct_inv h its (s\<lparr>sorted_arr := sa, row := rw, lastAspectRatio := la\<rparr>)"
  by (simp add: struct_inv_def)

lemma struct_inv_draw:
  assumes inv: "struct_inv h its s" and ne: "row s \<noteq> []"
  shows "struct_inv h its (draw_row s)"
proof -
  obtain m b where lr: "layoutRow (mem s) (row s) (lengthOfShorterEdge s) (rootbounds s) = (m, b)"
    by (cases "layoutRow (mem s) (row s) (lengthOfShorterEdge s) (rootbounds s)")
  define m1 where "m1 = layout_items (num_eq (lengthOfShorterEdge s) (width (rootbounds s))) (rootbounds s) (lengthOfShorterEdge s)
      (common_edge (mem s) (if num_eq (lengthOfShorterEdge s) (width (rootbounds s)) then height (rootbounds s) else width (rootbounds s))
          (sumWeights (objs (mem s)) (row s)) (length (row s)))
      (sumWeights (objs (mem s)) (row s)) (length (row s)) (row s) (Fin 0) (mem s)"
  have m: "m = m1\<lparr>totalRemainingWeightSum := num_sub (totalRemainingWeightSum m1) (sumWeights (objs (mem s)) (row s))\<rparr>"
    using lr by (auto simp: layoutRow_def Let_def m1_def)
  have d: "draw_row s = s\<lparr>mem := m, rootbounds := b, lastAspectRatio := POSITIVE_INFINITY,
            lengthOfShorterEdge := Math_min (width b) (height b),
            committed := committed s @ [row s], row := []\<rparr>"
    by (simp add: draw_row_def lr)
  have a: "map fst (assigned m) = map fst (assigned (mem s)) @ row s"
    by (simp add: m m1_def li_refs)
  have w: "weight (objs m r) = weight (objs (mem s) r)" for r
    by (simp add: m m1_def li_weight)
  have i: "itemsRemaining m = itemsRemaining (mem s) - int (length (row s))"
    by (simp add: m m1_def li_itemsRemaining)
  have "last_write (mem s)" using inv by (simp add: struct_inv_def)
  then have "last_write m1" unfolding m1_def by (rule li_last_write)
  then have l: "last_write m" by (simp add: m last_write_def)
  have ms: "image_mset fst (mset (assigned m)) =
      image_mset fst (mset (assigned (mem s))) + mset (row s)"
    using arg_cong[OF a, of mset] by simp
  show ?thesis
    using inv ne l unfolding d struct_inv_def
    by (simp add: a w i ms ac_simps)
qed

lemma squarify_struct:
  "\<exists>s. squarify h its b = Inr s \<and> struct_inv h its s \<and> sorted_arr s = [] \<and> row s = []"
  unfolding squarify_def
proof (rule squarify_loop_rule[where P = "struct_inv h its"])
  show "struct_inv h its (init h its b)" by (rule struct_inv_init)
qed (auto intro: struct_inv_split struct_inv_draw simp: init_def POSITIVE_INFINITY_def Let_def)

lemma length_le_concat: "[] \<notin> set xss \<Longrightarrow> length xss \<le> length (concat xss)"
proof (induction xss)
  case Nil
  then show ?case by simp
next
  case (Cons a xss)
  then show ?case by (cases a) auto
qed

section \<open>Finite arithmetic\<close>

text \<open>
  On finite numbers the arithmetic of the engine is that of the rationals; the sum of
  finite non-negative weights is finite and bounds each of them.
\<close>

lemma fin_nonnegE:
  assumes "fin_nonneg a"
  obtains q where "a = Fin q" "0 \<le> q"
  using assms by (cases a) auto

lemma weight_fin: "fin_nonneg (weight (h r)) \<Longrightarrow> weight (h r) = Fin (wv h r)"
  unfolding wv_def by (cases "weight (h r)") auto

lemma wv_nonneg: "fin_nonneg (weight (h r)) \<Longrightarrow> 0 \<le> wv h r"
  unfolding wv_def by (cases "weight (h r)") auto

lemma foldl_add_fin:
  "\<forall>r\<in>set rs. fin_nonneg (weight (h r)) \<Longrightarrow>
   foldl (\<lambda>sum item. num_add sum (weight (h item))) (Fin a) rs = Fin (a + (\<Sum>r\<leftarrow>rs. wv h r))"
proof (induction rs arbitrary: a)
  case Nil
  then show ?case by simp
next
  case (Cons r rs)
  have "fin_nonneg (weight (h r))" using Cons.prems by simp
  then have w: "weight (h r) = Fin (wv h r)" by (rule weight_fin)
  have "foldl (\<lambda>sum item. num_add sum (weight (h item))) (Fin a) (r # rs) =
        foldl (\<lambda>sum item. num_add sum (weight (h item))) (Fin (a + wv h r)) rs"
    by (simp add: w)
  also have "\<dots> = Fin (a + wv h r + (\<Sum>r\<leftarrow>rs. wv h r))"
    by (rule Cons.IH) (use Cons.prems in simp)
  finally show ?case by (simp add: add.assoc)
qed

lemma sumWeights_fin:
  "\<forall>r\<in>set rs. fin_nonneg (weight (h r)) \<Longrightarrow> sumWeights h rs = Fin (\<Sum>r\<leftarrow>rs. wv h r)"
  unfolding sumWeights_def using foldl_add_fin[of rs h 0] by simp

lemma wv_nonneg_sum:
  "\<forall>r\<in>set rs. fin_nonneg (weight (h r)) \<Longrightarrow> 0 \<le> (\<Sum>r\<leftarrow>rs. wv h r)"
  by (rule sum_list_nonneg) (auto simp: wv_nonneg)

lemma wv_le_sum:
  "\<forall>r\<in>set rs. fin_nonneg (weight (h r)) \<Longrightarrow> r \<in> set rs \<Longrightarrow> wv h r \<le> (\<Sum>r\<leftarrow>rs. wv h r)"
proof (induction rs)
  case Nil
  then show ?case by simp
next
  case (Cons a rs)
  have n: "0 \<le> (\<Sum>r\<leftarrow>rs. wv h r)" using Cons.prems(1) by (intro wv_nonneg_sum) simp
  have a: "0 \<le> wv h a" using Cons.prems(1) by (simp add: wv_nonneg)
  show ?case
  proof (cases "r = a")
    case True
    then show ?thesis using n by simp
  next
    case False
    then have "wv h r \<le> (\<Sum>r\<leftarrow>rs. wv h r)" using Cons by simp
    then show ?thesis using a by simp
  qed
qed

lemma Math_max_fin: "Math_max (Fin a) (Fin b) = Fin (max a b)"
  by (simp add: Math_max_def max_def)

lemma Math_min_fin: "Math_min (Fin a) (Fin b) = Fin (min a b)"
  by (auto simp add: Math_min_def min_def)

lemma num_sub_fin: "num_sub (Fin a) (Fin b) = Fin (a - b)"
  by (simp add: num_sub_def)

lemma num_eq_fin: "num_eq (Fin a) (Fin b) = (a = b)"
  by (simp add: num_eq_def)

section \<open>What laying out a row computes\<close>

lemma common_edge_fin:
  assumes "totalRemainingWeightSum m = Fin R" "itemsRemaining m = M" "M \<noteq> 0"
    and "0 \<le> \<sigma>" "\<sigma> \<le> R"
  shows "common_edge m (Fin L) (Fin \<sigma>) n = Fin (L * row_share R M \<sigma> n)"
proof (cases "R = 0")
  case True
  then have "\<sigma> = 0" using assms by simp
  then show ?thesis using True assms(1,2,3)
    by (simp add: common_edge_def row_share_def num_eq_fin num_of_nat_def num_of_int_def)
next
  case False
  then show ?thesis using assms(1)
    by (simp add: common_edge_def row_share_def)
qed

lemma item_ratio_fin:
  assumes "0 \<le> w" "w \<le> \<sigma>" "n \<noteq> 0"
  shows "item_ratio (Fin w) (Fin \<sigma>) n = Fin (if \<sigma> = 0 then 1 / of_nat n else w / \<sigma>)"
  using assms by (auto simp: item_ratio_def num_eq_fin num_of_nat_def)

lemma updateBounds_fin:
  assumes "width b = Fin bw" "height b = Fin bh" "0 \<le> c" "c \<le> max bw bh"
  shows "width (updateBoundsForNextRow b (Fin c)) = Fin (if bh < bw then bw - c else bw)"
    and "height (updateBoundsForNextRow b (Fin c)) = Fin (if bh < bw then bh else bh - c)"
  using assms 
  by (auto simp: updateBoundsForNextRow_def num_gt_def Let_def Math_max_fin num_sub_fin max_def split: if_splits)

lemma row_share_bounds:
  assumes "0 \<le> \<sigma>" "\<sigma> \<le> R" "int n \<le> M" "0 < M"
  shows "0 \<le> row_share R M \<sigma> n" and "row_share R M \<sigma> n \<le> 1"
proof -
  have "(of_nat n :: rat) \<le> of_int M"
    using assms(3) by (metis of_int_le_iff of_int_of_nat_eq)
  then show "0 \<le> row_share R M \<sigma> n" and "row_share R M \<sigma> n \<le> 1"
    using assms by (auto simp: row_share_def divide_le_eq_1)
qed

lemma share_mult:
  assumes "0 \<le> w" "w \<le> \<sigma>" "\<sigma> \<le> R" "n \<noteq> 0" "M \<noteq> 0"
  shows "(if \<sigma> = 0 then 1 / of_nat n else w / \<sigma>) * row_share R M \<sigma> n = item_share R M w"
  using assms by (auto simp: row_share_def item_share_def)

lemma min_times_max: "min a b * (if min a b = a then b else a) = a * (b::rat)"
  by (auto simp: min_def)

lemma layoutRow_effect:
  fixes bw bh R :: rat
  assumes ws: "\<forall>r\<in>set rw. fin_nonneg (weight (objs m r))"
    and tot: "totalRemainingWeightSum m = Fin R"
    and le: "(\<Sum>r\<leftarrow>rw. wv (objs m) r) \<le> R"
    and cnt: "itemsRemaining m = M" "int (length rw) \<le> M" "rw \<noteq> []"
    and bnd: "width b = Fin bw" "height b = Fin bh" "0 \<le> bw" "0 \<le> bh"
    and lr: "layoutRow m rw (Fin (min bw bh)) b = (m', b')"
  shows "totalRemainingWeightSum m' = Fin (R - (\<Sum>r\<leftarrow>rw. wv (objs m) r))"
    and "\<exists>bw' bh'. width b' = Fin bw' \<and> height b' = Fin bh' \<and> 0 \<le> bw' \<and> 0 \<le> bh' \<and>
           bw' * bh' = bw * bh * (1 - row_share R M (\<Sum>r\<leftarrow>rw. wv (objs m) r) (length rw))"
    and "\<exists>new. assigned m' = assigned m @ new \<and>
           (\<forall>e \<in> set new. fst e \<in> set rw \<and>
              (\<exists>a c. width (snd e) = Fin a \<and> height (snd e) = Fin c \<and> 0 \<le> a \<and> 0 \<le> c \<and>
                 a * c = bw * bh * item_share R M (wv (objs m) (fst e))))"
proof -
  define \<sigma> where "\<sigma> = (\<Sum>r\<leftarrow>rw. wv (objs m) r)"
  define n where "n = length rw"
  define hz where "hz = (min bw bh = bw)"
  define L where "L = (if hz then bh else bw)"
  define f where "f = row_share R M \<sigma> n"
  have S: "sumWeights (objs m) rw = Fin \<sigma>"
    unfolding \<sigma>_def using ws by (rule sumWeights_fin)
  have s0: "0 \<le> \<sigma>" unfolding \<sigma>_def using ws by (rule wv_nonneg_sum)
  have sR: "\<sigma> \<le> R" using le by (simp add: \<sigma>_def)
  have n0: "n \<noteq> 0" using cnt(3) by (simp add: n_def)
  have "0 < length rw" using cnt(3) by simp
  then have M0: "0 < M" using cnt(2) by linarith
  have f01: "0 \<le> f" "f \<le> 1"
    unfolding f_def using row_share_bounds[OF s0 sR _ M0, of n] cnt(2) by (simp_all add: n_def)
  have L0: "0 \<le> L" using bnd by (simp add: L_def)
  have Lmax: "L = max bw bh" by (auto simp: L_def hz_def min_def max_def)
  have hor: "num_eq (Fin (min bw bh)) (width b) = hz"
    by (simp add: bnd num_eq_fin hz_def)
  have longer: "(if hz then height b else width b) = Fin L"
    by (simp add: L_def bnd)
  have ce: "common_edge m (Fin L) (Fin \<sigma>) n = Fin (L * f)"
    unfolding f_def using tot cnt(1) _ s0 sR by (rule common_edge_fin) (use M0 in simp)
  define m1 where "m1 = layout_items hz b (Fin (min bw bh)) (Fin (L * f)) (Fin \<sigma>) n rw (Fin 0) m"
  have m': "m' = m1\<lparr>totalRemainingWeightSum := num_sub (totalRemainingWeightSum m1) (Fin \<sigma>)\<rparr>"
    and b': "b' = updateBoundsForNextRow b (Fin (L * f))"
    using lr by (simp_all add: layoutRow_def Let_def hor longer S ce n_def[symmetric] m1_def)
  show "totalRemainingWeightSum m' = Fin (R - (\<Sum>r\<leftarrow>rw. wv (objs m) r))"
    by (simp add: m' m1_def li_total tot num_sub_fin \<sigma>_def)
  have cL: "L * f \<le> max bw bh"
    unfolding Lmax[symmetric] using mult_left_mono[OF f01(2) L0] by simp
  have c0: "0 \<le> L * f" using L0 f01(1) by simp
  note ub = updateBounds_fin[OF bnd(1) bnd(2) c0 cL]
  show "\<exists>bw' bh'. width b' = Fin bw' \<and> height b' = Fin bh' \<and> 0 \<le> bw' \<and> 0 \<le> bh' \<and>
           bw' * bh' = bw * bh * (1 - row_share R M (\<Sum>r\<leftarrow>rw. wv (objs m) r) (length rw))"
  proof (cases "bh < bw")
    case True
    then have L: "L = bw" by (simp add: Lmax)
    have "width b' = Fin (bw - bw * f)" "height b' = Fin bh"
      using ub True by (simp_all add: b' L)
    moreover have "0 \<le> bw - bw * f" using cL c0 True by (simp add: L)
    moreover have "(bw - bw * f) * bh = bw * bh * (1 - f)" by (simp add: algebra_simps)
    ultimately show ?thesis using bnd(4) unfolding f_def \<sigma>_def n_def by blast
  next
    case False
    then have L: "L = bh" by (simp add: Lmax)
    have "width b' = Fin bw" "height b' = Fin (bh - bh * f)"
      using ub False by (simp_all add: b' L)
    moreover have "0 \<le> bh - bh * f" using cL c0 False by (simp add: L)
    moreover have "bw * (bh - bh * f) = bw * bh * (1 - f)" by (simp add: algebra_simps)
    ultimately show ?thesis using bnd(3) unfolding f_def \<sigma>_def n_def by blast
  qed
  from li_sizes[of hz b "Fin (min bw bh)" "Fin (L * f)" "Fin \<sigma>" n rw "Fin 0" m]
  obtain new where new: "assigned m1 = assigned m @ new" "map fst new = rw"
    "\<forall>e \<in> set new.
            width (snd e) = (if hz then num_mul (Fin (min bw bh)) (item_ratio (weight (objs m (fst e))) (Fin \<sigma>) n)
                             else Math_max (Fin 0) (Fin (L * f))) \<and>
            height (snd e) = (if hz then Fin (L * f)
                              else Math_max (Fin 0) (num_mul (Fin (min bw bh)) (item_ratio (weight (objs m (fst e))) (Fin \<sigma>) n)))"
    unfolding m1_def by blast
  have each: "fst e \<in> set rw \<and>
              (\<exists>a c. width (snd e) = Fin a \<and> height (snd e) = Fin c \<and> 0 \<le> a \<and> 0 \<le> c \<and>
                 a * c = bw * bh * item_share R M (wv (objs m) (fst e)))" if e: "e \<in> set new" for e
  proof -
    define r where "r = fst e"
    define w where "w = wv (objs m) r"
    define \<rho> where "\<rho> = (if \<sigma> = 0 then 1 / of_nat n else w / \<sigma>)"
    have rin: "r \<in> set rw" using e new(2) by (force simp: r_def)
    have fw: "fin_nonneg (weight (objs m r))" using ws rin by simp
    have wr: "weight (objs m r) = Fin w" unfolding w_def using fw by (rule weight_fin)
    have w0: "0 \<le> w" unfolding w_def using fw by (rule wv_nonneg)
    have ws': "w \<le> \<sigma>" unfolding w_def \<sigma>_def using ws rin by (rule wv_le_sum)
    have ir: "item_ratio (weight (objs m r)) (Fin \<sigma>) n = Fin \<rho>"
      unfolding wr \<rho>_def using w0 ws' n0 by (rule item_ratio_fin)
    have r0: "0 \<le> \<rho>" using w0 s0 by (simp add: \<rho>_def)
    have e0: "0 \<le> min bw bh * \<rho>" using r0 bnd(3,4) by simp
    have prod: "min bw bh * \<rho> * (L * f) = bw * bh * item_share R M w"
    proof -
      have "min bw bh * \<rho> * (L * f) = (min bw bh * L) * (\<rho> * f)" by simp
      also have "min bw bh * L = bw * bh"
        unfolding L_def hz_def by (rule min_times_max)
      also have "\<rho> * f = item_share R M w"
        unfolding \<rho>_def f_def using w0 ws' sR n0 _ by (rule share_mult) (use M0 in simp)
      finally show ?thesis .
    qed
    have wd: "width (snd e) = (if hz then Fin (min bw bh * \<rho>) else Fin (L * f))"
      and ht: "height (snd e) = (if hz then Fin (L * f) else Fin (min bw bh * \<rho>))"
      using new(3) e ir c0 e0 by (simp_all add: r_def[symmetric] Math_max_fin max_def)
    show ?thesis
    proof (cases hz)
      case True
      then show ?thesis using wd ht rin e0 c0 prod by (simp add: r_def w_def)
    next
      case False
      have "L * f * (min bw bh * \<rho>) = bw * bh * item_share R M w"
        using prod by (simp add: mult.commute)
      then show ?thesis using False wd ht rin e0 c0 by (simp add: r_def w_def)
    qed
  qed
  show "\<exists>new. assigned m' = assigned m @ new \<and>
           (\<forall>e \<in> set new. fst e \<in> set rw \<and>
              (\<exists>a c. width (snd e) = Fin a \<and> height (snd e) = Fin c \<and> 0 \<le> a \<and> 0 \<le> c \<and>
                 a * c = bw * bh * item_share R M (wv (objs m) (fst e))))"
  proof (intro exI[where x = new] conjI ballI)
    show "assigned m' = assigned m @ new" by (simp add: m' new(1))
  qed (use each in blast)+
qed

section \<open>The numeric invariants\<close>

lemma sumWeights_cong:
  "(\<And>r. weight (h r) = weight (h' r)) \<Longrightarrow> sumWeights h rs = sumWeights h' rs"
  by (simp add: sumWeights_def)

lemma wv_cong: "weight (h r) = weight (h' r) \<Longrightarrow> wv h r = wv h' r"
  by (simp add: wv_def)

lemma base_inv_split:
  "base_inv h its s \<Longrightarrow> rw @ sa = row s @ sorted_arr s \<Longrightarrow>
   base_inv h its (s\<lparr>sorted_arr := sa, row := rw, lastAspectRatio := la\<rparr>)"
  unfolding base_inv_def using struct_inv_split[of h its s rw sa la]
  by (simp add: num_inv_def)

lemma draw_row_effect:
  assumes inv: "base_inv h its s" and ne: "row s \<noteq> []"
  defines "\<sigma> \<equiv> (\<Sum>r\<leftarrow>row s. wv h r)"
  shows "base_inv h its (draw_row s)"
    and "remaining_weight s = \<sigma> + (\<Sum>r\<leftarrow>sorted_arr s. wv h r)"
    and "remaining_weight (draw_row s) = remaining_weight s - \<sigma>"
    and "itemsRemaining (mem (draw_row s)) = itemsRemaining (mem s) - int (length (row s))"
    and "bounds_area (draw_row s) =
           bounds_area s * (1 - row_share (remaining_weight s) (itemsRemaining (mem s)) \<sigma> (length (row s)))"
    and "\<exists>new. assigned (mem (draw_row s)) = assigned (mem s) @ new \<and>
           (\<forall>e \<in> set new. fst e \<in> set (row s) \<and>
              rect_area (snd e) =
                bounds_area s * item_share (remaining_weight s) (itemsRemaining (mem s)) (wv h (fst e)))"
proof -
  have st: "struct_inv h its s" and nu: "num_inv s" using inv by (simp_all add: base_inv_def)
  have wh: "weight (objs (mem s) r) = weight (h r)" for r using st by (simp add: struct_inv_def)
  have wvh: "wv (objs (mem s)) r = wv h r" for r by (rule wv_cong) (rule wh)
  have ws_all: "\<forall>r\<in>set (row s @ sorted_arr s). fin_nonneg (weight (objs (mem s) r))"
    using nu by (simp add: num_inv_def)
  then have ws: "\<forall>r\<in>set (row s). fin_nonneg (weight (objs (mem s) r))"
    and wsd: "\<forall>r\<in>set (sorted_arr s). fin_nonneg (weight (objs (mem s) r))" by simp_all
  define R where "R = (\<Sum>r\<leftarrow>row s @ sorted_arr s. wv (objs (mem s)) r)"
  have tot: "totalRemainingWeightSum (mem s) = Fin R"
    using nu sumWeights_fin[OF ws_all] by (simp add: num_inv_def R_def)
  have Rs: "R = \<sigma> + (\<Sum>r\<leftarrow>sorted_arr s. wv h r)"
    by (simp add: R_def \<sigma>_def wvh)
  have rest0: "0 \<le> (\<Sum>r\<leftarrow>sorted_arr s. wv (objs (mem s)) r)"
    using wsd by (rule wv_nonneg_sum)
  have le: "(\<Sum>r\<leftarrow>row s. wv (objs (mem s)) r) \<le> R"
    using rest0 by (simp add: R_def)
  have cnt: "itemsRemaining (mem s) = int (length (row s @ sorted_arr s))"
    using st by (simp add: struct_inv_def)
  then have cnt2: "int (length (row s)) \<le> itemsRemaining (mem s)" by simp
  obtain bw where bw: "width (rootbounds s) = Fin bw" "0 \<le> bw"
    using nu by (auto simp: num_inv_def elim: fin_nonnegE)
  obtain bh where bh: "height (rootbounds s) = Fin bh" "0 \<le> bh"
    using nu by (auto simp: num_inv_def elim: fin_nonnegE)
  have sh: "lengthOfShorterEdge s = Fin (min bw bh)"
    using nu by (simp add: num_inv_def bw bh Math_min_fin)
  obtain m b where lr: "layoutRow (mem s) (row s) (Fin (min bw bh)) (rootbounds s) = (m, b)"
    by (cases "layoutRow (mem s) (row s) (Fin (min bw bh)) (rootbounds s)")
  have d: "draw_row s = s\<lparr>mem := m, rootbounds := b, lastAspectRatio := POSITIVE_INFINITY,
            lengthOfShorterEdge := Math_min (width b) (height b),
            committed := committed s @ [row s], row := []\<rparr>"
    by (simp add: draw_row_def sh lr)
  note eff = layoutRow_effect[OF ws tot le refl cnt2 ne bw(1) bh(1) bw(2) bh(2) lr]
  have tot': "totalRemainingWeightSum m = Fin (R - \<sigma>)"
    using eff(1) by (simp add: \<sigma>_def wvh)
  obtain bw' bh' where b': "width b = Fin bw'" "height b = Fin bh'" "0 \<le> bw'" "0 \<le> bh'"
    "bw' * bh' = bw * bh * (1 - row_share R (itemsRemaining (mem s)) \<sigma> (length (row s)))"
    using eff(2) by (auto simp: \<sigma>_def wvh)
  obtain new where new: "assigned m = assigned (mem s) @ new"
    "\<forall>e \<in> set new. fst e \<in> set (row s) \<and>
              (\<exists>a c. width (snd e) = Fin a \<and> height (snd e) = Fin c \<and> 0 \<le> a \<and> 0 \<le> c \<and>
                 a * c = bw * bh * item_share R (itemsRemaining (mem s)) (wv h (fst e)))"
    using eff(3) by (auto simp: wvh)
  have st': "struct_inv h its (draw_row s)" using st ne by (rule struct_inv_draw)
  have wh': "weight (objs m r) = weight (h r)" for r
    using st' by (simp add: struct_inv_def d)
  have "sumWeights (objs m) (sorted_arr s) = sumWeights (objs (mem s)) (sorted_arr s)"
    by (rule sumWeights_cong) (simp add: wh wh')
  also have "\<dots> = Fin (\<Sum>r\<leftarrow>sorted_arr s. wv (objs (mem s)) r)"
    using wsd by (rule sumWeights_fin)
  also have "\<dots> = Fin (R - \<sigma>)" by (simp add: Rs wvh)
  finally have sw: "sumWeights (objs m) (sorted_arr s) = Fin (R - \<sigma>)" .
  have lognn: "\<forall>e \<in> set (assigned m). fin_nonneg (width (snd e)) \<and> fin_nonneg (height (snd e))"
  proof
    fix e assume "e \<in> set (assigned m)"
    then consider "e \<in> set (assigned (mem s))" | "e \<in> set new" by (auto simp: new(1))
    then show "fin_nonneg (width (snd e)) \<and> fin_nonneg (height (snd e))"
    proof cases
      case 1
      then show ?thesis using nu by (simp add: num_inv_def)
    next
      case 2
      then obtain a c where "width (snd e) = Fin a" "height (snd e) = Fin c" "0 \<le> a" "0 \<le> c"
        using new(2) by blast
      then show ?thesis by simp
    qed
  qed
  have nu': "num_inv (draw_row s)"
    unfolding num_inv_def d using wsd lognn by (simp add: wh wh' tot' sw b')
  show "base_inv h its (draw_row s)" using st' nu' by (simp add: base_inv_def)
  show "remaining_weight s = \<sigma> + (\<Sum>r\<leftarrow>sorted_arr s. wv h r)"
    by (simp add: remaining_weight_def tot Rs)
  show "remaining_weight (draw_row s) = remaining_weight s - \<sigma>"
    by (simp add: remaining_weight_def tot d tot')
  show "itemsRemaining (mem (draw_row s)) = itemsRemaining (mem s) - int (length (row s))"
    using st' cnt by (simp add: struct_inv_def draw_row_row draw_row_sorted_arr)
  show "bounds_area (draw_row s) =
           bounds_area s * (1 - row_share (remaining_weight s) (itemsRemaining (mem s)) \<sigma> (length (row s)))"
    by (simp add: bounds_area_def d b' bw bh remaining_weight_def tot)
  show "\<exists>new. assigned (mem (draw_row s)) = assigned (mem s) @ new \<and>
           (\<forall>e \<in> set new. fst e \<in> set (row s) \<and>
              rect_area (snd e) =
                bounds_area s * item_share (remaining_weight s) (itemsRemaining (mem s)) (wv h (fst e)))"
  proof (intro exI[where x = new] conjI ballI)
    show "assigned (mem (draw_row s)) = assigned (mem s) @ new" by (simp add: d new(1))
  next
    fix e assume e: "e \<in> set new"
    then show "fst e \<in> set (row s)" using new(2) by blast
    from e obtain a c where "width (snd e) = Fin a" "height (snd e) = Fin c"
      "a * c = bw * bh * item_share R (itemsRemaining (mem s)) (wv h (fst e))"
      using new(2) by blast
    then show "rect_area (snd e) =
                bounds_area s * item_share (remaining_weight s) (itemsRemaining (mem s)) (wv h (fst e))"
      by (simp add: rect_area_def bounds_area_def bw bh remaining_weight_def tot)
  qed
qed

lemma layoutRow_frame:
  assumes "layoutRow m rw sh b = (m', b')"
  shows "totalRemainingWeightSum m' =
           num_sub (totalRemainingWeightSum m) (sumWeights (objs m) rw)"
    and "weight (objs m' r) = weight (objs m r)"
  using assms by (auto simp: layoutRow_def Let_def li_total li_weight)

lemma count_inv_split:
  "count_inv h its s \<Longrightarrow> rw @ sa = row s @ sorted_arr s \<Longrightarrow>
   count_inv h its (s\<lparr>sorted_arr := sa, row := rw, lastAspectRatio := la\<rparr>)"
  unfolding count_inv_def using struct_inv_split[of h its s rw sa la]
  by (simp add: sum_inv_def)

lemma count_inv_draw:
  assumes inv: "count_inv h its s" and ne: "row s \<noteq> []"
  shows "count_inv h its (draw_row s)"
proof -
  have st: "struct_inv h its s" and su: "sum_inv s" using inv by (simp_all add: count_inv_def)
  have ws_all: "\<forall>r\<in>set (row s @ sorted_arr s). fin_nonneg (weight (objs (mem s) r))"
    using su by (simp add: sum_inv_def)
  then have ws: "\<forall>r\<in>set (row s). fin_nonneg (weight (objs (mem s) r))"
    and wsd: "\<forall>r\<in>set (sorted_arr s). fin_nonneg (weight (objs (mem s) r))" by simp_all
  obtain m b where lr: "layoutRow (mem s) (row s) (lengthOfShorterEdge s) (rootbounds s) = (m, b)"
    by (cases "layoutRow (mem s) (row s) (lengthOfShorterEdge s) (rootbounds s)")
  have d: "draw_row s = s\<lparr>mem := m, rootbounds := b, lastAspectRatio := POSITIVE_INFINITY,
            lengthOfShorterEdge := Math_min (width b) (height b),
            committed := committed s @ [row s], row := []\<rparr>"
    by (simp add: draw_row_def lr)
  have wm: "weight (objs m r) = weight (objs (mem s) r)" for r
    using lr by (rule layoutRow_frame(2))
  have "totalRemainingWeightSum m =
      num_sub (sumWeights (objs (mem s)) (row s @ sorted_arr s)) (sumWeights (objs (mem s)) (row s))"
    using layoutRow_frame(1)[OF lr] su by (simp add: sum_inv_def)
  also have "\<dots> = Fin (\<Sum>r\<leftarrow>sorted_arr s. wv (objs (mem s)) r)"
    unfolding sumWeights_fin[OF ws_all] sumWeights_fin[OF ws] by (simp add: num_sub_fin)
  also have "\<dots> = sumWeights (objs (mem s)) (sorted_arr s)"
    using sumWeights_fin[OF wsd] by simp
  also have "\<dots> = sumWeights (objs m) (sorted_arr s)"
    by (rule sumWeights_cong) (simp add: wm)
  finally have "sum_inv (draw_row s)"
    using wsd by (simp add: sum_inv_def d wm)
  then show ?thesis
    using struct_inv_draw[OF st ne] by (simp add: count_inv_def)
qed

lemma run_from_trans: "run_from b c \<Longrightarrow> run_from a b \<Longrightarrow> run_from a c"
  by (induction rule: run_from.induct) (auto intro: run_from.pass)

lemma squarify_loop_run: "squarify_loop s = Inr s' \<Longrightarrow> run_from s s'"
proof (induction s rule: squarify_loop.induct)
  case (1 s)
  show ?case
  proof (cases "sorted_arr s = []")
    case True
    then show ?thesis using "1.prems" by (simp add: squarify_loop.simps run_from.start)
  next
    case False
    then obtain s1 where s1: "loop_body s = Inr s1" "squarify_loop s1 = Inr s'"
      using "1.prems" by (auto simp: squarify_loop.simps[of s] split: sum.splits)
    have "run_from s1 s'" using "1.IH"[OF False s1(1) s1(2)] .
    moreover have "run_from s s1" using run_from.start False s1(1) by (rule run_from.pass)
    ultimately show ?thesis by (rule run_from_trans)
  qed
qed

lemma set_sort_by_weight: "set (sort_by_weight h its) = set its"
  using mset_sort_by_weight[of h its] by (rule mset_eq_setD)

lemma sum_sort_by_weight: "(\<Sum>r\<leftarrow>sort_by_weight h its. f r) = (\<Sum>r\<leftarrow>its. (f r :: rat))"
proof -
  have "mset (map f (sort_by_weight h its)) = mset (map f its)"
    by (simp add: mset_sort_by_weight)
  then show ?thesis by (metis sum_mset_sum_list)
qed

lemma count_inv_init:
  "\<forall>r\<in>set its. fin_nonneg (weight (h r)) \<Longrightarrow> count_inv h its (init h its b)"
  unfolding count_inv_def using struct_inv_init[of h its b]
  by (simp add: sum_inv_def init_def Let_def set_sort_by_weight)

lemma base_inv_init:
  "\<forall>r\<in>set its. fin_nonneg (weight (h r)) \<Longrightarrow> fin_nonneg (width b) \<Longrightarrow> fin_nonneg (height b) \<Longrightarrow>
   base_inv h its (init h its b)"
  unfolding base_inv_def using struct_inv_init[of h its b]
  by (simp add: num_inv_def init_def Let_def set_sort_by_weight)

lemma init_fresh:
  "row (init h its b) = []" "lastAspectRatio (init h its b) = PInf"
  by (simp_all add: init_def Let_def POSITIVE_INFINITY_def)

lemma final_objs:
  assumes "struct_inv h its s" "sorted_arr s = []" "row s = []" "r \<in> set its"
  shows "(r, rect_of (objs (mem s) r)) \<in> set (assigned (mem s))"
proof -
  have "mset (map fst (assigned (mem s))) = mset its"
    using assms(1,2,3) by (simp add: struct_inv_def)
  then have "set (map fst (assigned (mem s))) = set its" by (rule mset_eq_setD)
  then have "r \<in> fst ` set (assigned (mem s))" using assms(4) by simp
  then obtain e where e: "e \<in> set (assigned (mem s))" "fst e = r"
    by (auto simp: image_iff)
  have "last_write (mem s)" using assms(1) by (simp add: struct_inv_def)
  then show ?thesis using e by (auto simp: last_write_def)
qed

lemma rect_of_sel: "width (rect_of it) = width it" "height (rect_of it) = height it"
  by (simp_all add: rect_of_def)

lemma fin_nonneg_ge: "fin_nonneg a \<Longrightarrow> num_ge a (Fin 0)"
  by (cases a) (auto simp: num_ge_def)

lemma squarify_count:
  assumes "\<forall>r\<in>set its. fin_nonneg (weight (h r))"
  shows "\<exists>s. squarify h its b = Inr s \<and> count_inv h its s \<and> sorted_arr s = [] \<and> row s = []"
  unfolding squarify_def
proof (rule squarify_loop_rule[where P = "count_inv h its"])
  show "count_inv h its (init h its b)" using assms by (rule count_inv_init)
qed (auto intro: count_inv_split count_inv_draw simp: init_fresh)

lemma squarify_base:
  assumes "\<forall>r\<in>set its. fin_nonneg (weight (h r))" "fin_nonneg (width b)" "fin_nonneg (height b)"
  shows "\<exists>s. squarify h its b = Inr s \<and> base_inv h its s \<and> sorted_arr s = [] \<and> row s = []"
  unfolding squarify_def
proof (rule squarify_loop_rule[where P = "base_inv h its"])
  show "base_inv h its (init h its b)" using assms by (rule base_inv_init)
qed (auto intro: base_inv_split draw_row_effect(1) simp: init_fresh)

section \<open>The area invariants\<close>

lemma share_row: "0 \<le> \<sigma> \<Longrightarrow> \<sigma> \<le> R \<Longrightarrow> R * (1 - row_share R M \<sigma> n) = R - \<sigma>"
  by (auto simp: row_share_def algebra_simps)

lemma share_item: "0 \<le> w \<Longrightarrow> w \<le> R \<Longrightarrow> R * item_share R M w = w"
  by (auto simp: item_share_def)

lemma base_inv_weights:
  assumes "base_inv h its s"
  shows "\<forall>r\<in>set (row s @ sorted_arr s). fin_nonneg (weight (h r))"
proof -
  have "weight (objs (mem s) r) = weight (h r)" for r
    using assms by (simp add: base_inv_def struct_inv_def)
  then show ?thesis using assms by (simp add: base_inv_def num_inv_def)
qed

lemma row_weights:
  assumes "base_inv h its s"
  shows "0 \<le> (\<Sum>r\<leftarrow>row s. wv h r)"
    and "0 \<le> (\<Sum>r\<leftarrow>sorted_arr s. wv h r)"
    and "r \<in> set (row s) \<Longrightarrow> 0 \<le> wv h r \<and> wv h r \<le> (\<Sum>r\<leftarrow>row s. wv h r)"
proof -
  have a: "\<forall>r\<in>set (row s). fin_nonneg (weight (h r))"
    and b: "\<forall>r\<in>set (sorted_arr s). fin_nonneg (weight (h r))"
    using base_inv_weights[OF assms] by simp_all
  show "0 \<le> (\<Sum>r\<leftarrow>row s. wv h r)" using a by (rule wv_nonneg_sum)
  show "0 \<le> (\<Sum>r\<leftarrow>sorted_arr s. wv h r)" using b by (rule wv_nonneg_sum)
  show "0 \<le> wv h r \<and> wv h r \<le> (\<Sum>r\<leftarrow>row s. wv h r)" if "r \<in> set (row s)"
    using a that wv_le_sum[OF a that] by (simp add: wv_nonneg)
qed

lemma area_inv_draw:
  assumes base: "base_inv h its s" and ar: "area_inv T A h s" and ne: "row s \<noteq> []"
  shows "area_inv T A h (draw_row s)"
proof -
  define \<sigma> where "\<sigma> = (\<Sum>r\<leftarrow>row s. wv h r)"
  define R where "R = remaining_weight s"
  define M where "M = itemsRemaining (mem s)"
  note eff = draw_row_effect[OF base ne, folded \<sigma>_def R_def M_def]
  have s0: "0 \<le> \<sigma>" unfolding \<sigma>_def using base by (rule row_weights(1))
  have sR: "\<sigma> \<le> R" using eff(2) row_weights(2)[OF base] by simp
  have bA: "bounds_area s * T = A * R" using ar by (simp add: area_inv_def R_def)
  have "bounds_area (draw_row s) * T = (bounds_area s * T) * (1 - row_share R M \<sigma> (length (row s)))"
    by (simp add: eff(5))
  also have "\<dots> = A * (R * (1 - row_share R M \<sigma> (length (row s))))"
    by (simp add: bA)
  also have "\<dots> = A * (R - \<sigma>)" using s0 sR by (simp add: share_row)
  finally have b': "bounds_area (draw_row s) * T = A * remaining_weight (draw_row s)"
    by (simp add: eff(3))
  obtain new where new: "assigned (mem (draw_row s)) = assigned (mem s) @ new"
    "\<forall>e \<in> set new. fst e \<in> set (row s) \<and>
              rect_area (snd e) = bounds_area s * item_share R M (wv h (fst e))"
    using eff(6) by blast
  have "rect_area (snd e) * T = A * wv h (fst e)" if e: "e \<in> set new" for e
  proof -
    have r: "fst e \<in> set (row s)" and ra: "rect_area (snd e) = bounds_area s * item_share R M (wv h (fst e))"
      using new(2) e by auto
    have w: "0 \<le> wv h (fst e)" "wv h (fst e) \<le> R"
      using row_weights(3)[OF base r] sR by (simp_all add: \<sigma>_def)
    have "rect_area (snd e) * T = (bounds_area s * T) * item_share R M (wv h (fst e))"
      by (simp add: ra)
    also have "\<dots> = A * (R * item_share R M (wv h (fst e)))" by (simp add: bA)
    also have "\<dots> = A * wv h (fst e)" using w by (simp add: share_item)
    finally show ?thesis .
  qed
  then show ?thesis using ar b' by (auto simp: area_inv_def new(1))
qed

lemma even_inv_draw:
  assumes base: "base_inv h its s" and ev: "even_inv N A s" and ne: "row s \<noteq> []"
  shows "even_inv N A (draw_row s)"
proof -
  define \<sigma> where "\<sigma> = (\<Sum>r\<leftarrow>row s. wv h r)"
  define M where "M = itemsRemaining (mem s)"
  have R0: "remaining_weight s = 0" using ev by (simp add: even_inv_def)
  note eff = draw_row_effect[OF base ne, folded \<sigma>_def M_def, unfolded R0]
  have s0: "0 \<le> \<sigma>" unfolding \<sigma>_def using base by (rule row_weights(1))
  have "\<sigma> \<le> 0" using eff(2) row_weights(2)[OF base] by simp
  then have sg: "\<sigma> = 0" using s0 by simp
  have "M = int (length (row s)) + int (length (sorted_arr s))"
    using base by (simp add: M_def base_inv_def struct_inv_def)
  moreover have "0 < length (row s)" using ne by simp
  ultimately have M0: "0 < M" by linarith
  then have M0': "(of_int M :: rat) \<noteq> 0" by simp
  have bA: "bounds_area s * N = A * of_int M" using ev by (simp add: even_inv_def M_def)
  have "bounds_area (draw_row s) * N =
      (bounds_area s * N) * (1 - of_nat (length (row s)) / of_int M)"
    by (simp add: eff(5) row_share_def)
  also have "\<dots> = A * (of_int M * (1 - of_nat (length (row s)) / of_int M))"
    by (simp add: bA)
  also have "of_int M * (1 - of_nat (length (row s)) / of_int M) = (of_int M - of_nat (length (row s)) :: rat)"
    using M0' by (simp add: field_simps)
  finally have b': "bounds_area (draw_row s) * N = A * of_int (itemsRemaining (mem (draw_row s)))"
    by (simp add: eff(4))
  have r': "remaining_weight (draw_row s) = 0" using eff(3) sg by simp
  obtain new where new: "assigned (mem (draw_row s)) = assigned (mem s) @ new"
    "\<forall>e \<in> set new. fst e \<in> set (row s) \<and>
              rect_area (snd e) = bounds_area s * item_share 0 M (wv h (fst e))"
    using eff(6) by blast
  have "rect_area (snd e) * N = A" if e: "e \<in> set new" for e
  proof -
    have "rect_area (snd e) = bounds_area s * (1 / of_int M)"
      using new(2) e by (simp add: item_share_def)
    then have "rect_area (snd e) * N = (bounds_area s * N) * (1 / of_int M)" by simp
    also have "\<dots> = A" using M0' by (simp add: bA)
    finally show ?thesis .
  qed
  then show ?thesis using ev b' r' by (auto simp: even_inv_def new(1))
qed

lemma area_inv_split:
  "area_inv T A h s \<Longrightarrow> area_inv T A h (s\<lparr>sorted_arr := sa, row := rw, lastAspectRatio := la\<rparr>)"
  by (simp add: area_inv_def bounds_area_def remaining_weight_def)

lemma even_inv_split:
  "even_inv N A s \<Longrightarrow> even_inv N A (s\<lparr>sorted_arr := sa, row := rw, lastAspectRatio := la\<rparr>)"
  by (simp add: even_inv_def bounds_area_def remaining_weight_def)

lemma init_remaining:
  assumes "\<forall>r\<in>set its. fin_nonneg (weight (h r))"
  shows "remaining_weight (init h its b) = (\<Sum>r\<leftarrow>its. wv h r)"
proof -
  have "\<forall>r\<in>set (sort_by_weight h its). fin_nonneg (weight (h r))"
    using assms by (simp add: set_sort_by_weight)
  then have "sumWeights h (sort_by_weight h its) = Fin (\<Sum>r\<leftarrow>sort_by_weight h its. wv h r)"
    by (rule sumWeights_fin)
  then show ?thesis
    by (simp add: remaining_weight_def init_def Let_def sum_sort_by_weight)
qed

lemma init_bounds_area:
  "bounds_area (init h its b) = fin_val (width b) * fin_val (height b)"
  by (simp add: bounds_area_def init_def Let_def)

lemma init_assigned: "assigned (mem (init h its b)) = []"
  by (simp add: init_def Let_def)

lemma init_itemsRemaining: "itemsRemaining (mem (init h its b)) = int (length its)"
  using mset_eq_length[OF mset_sort_by_weight[of h its]] by (simp add: init_def Let_def)

text \<open>The area of each item after the call, with positive or zero total weight.\<close>

lemma final_area:
  assumes base: "base_inv h its s" and fin: "sorted_arr s = []" "row s = []" and r: "r \<in> set its"
  shows "\<exists>rc. (r, rc) \<in> set (assigned (mem s)) \<and> area (objs (mem s) r) = Fin (rect_area rc) \<and>
           0 \<le> rect_area rc"
proof -
  define rc where "rc = rect_of (objs (mem s) r)"
  have inlog: "(r, rc) \<in> set (assigned (mem s))"
    unfolding rc_def using base fin r by (intro final_objs[of h its]) (simp_all add: base_inv_def)
  then have "fin_nonneg (width rc)" "fin_nonneg (height rc)"
    using base by (auto simp: base_inv_def num_inv_def)
  then obtain a c where ac: "width rc = Fin a" "height rc = Fin c" "0 \<le> a" "0 \<le> c"
    by (auto elim!: fin_nonnegE)
  have "area (objs (mem s) r) = num_mul (width rc) (height rc)"
    by (simp add: area_def rc_def rect_of_sel)
  then have "area (objs (mem s) r) = Fin (rect_area rc)"
    by (simp add: ac rect_area_def)
  moreover have "0 \<le> rect_area rc" using ac by (simp add: rect_area_def)
  ultimately show ?thesis using inlog by blast
qed

lemma squarify_area:
  assumes ws: "\<forall>r\<in>set its. fin_nonneg (weight (h r))"
    and bw: "fin_nonneg (width b)" and bh: "fin_nonneg (height b)"
  shows "\<exists>s. squarify h its b = Inr s \<and>
     (\<forall>r\<in>set its. \<exists>a. area (objs (mem s) r) = Fin a \<and> 0 \<le> a \<and>
        a * (\<Sum>r\<leftarrow>its. wv h r) = fin_val (width b) * fin_val (height b) * wv h r)"
proof -
  define T where "T = (\<Sum>r\<leftarrow>its. wv h r)"
  define A where "A = fin_val (width b) * fin_val (height b)"
  define P where "P = (\<lambda>s. base_inv h its s \<and> area_inv T A h s)"
  have "\<exists>s. squarify_loop (init h its b) = Inr s \<and> P s \<and> sorted_arr s = [] \<and> row s = []"
  proof (rule squarify_loop_rule[where P = P])
    show "P (init h its b)"
      unfolding P_def using base_inv_init[OF ws bw bh]
      by (simp add: area_inv_def init_remaining[OF ws] init_bounds_area init_assigned T_def A_def)
  qed (auto simp: P_def init_fresh intro: base_inv_split area_inv_split draw_row_effect(1) area_inv_draw)
  then obtain s where s: "squarify h its b = Inr s" "base_inv h its s" "area_inv T A h s"
    "sorted_arr s = []" "row s = []"
    by (auto simp: squarify_def P_def)
  have "\<exists>a. area (objs (mem s) r) = Fin a \<and> 0 \<le> a \<and> a * T = A * wv h r" if r: "r \<in> set its" for r
  proof -
    obtain rc where rc: "(r, rc) \<in> set (assigned (mem s))" "area (objs (mem s) r) = Fin (rect_area rc)"
      "0 \<le> rect_area rc"
      using final_area[OF s(2) s(4) s(5) r] by blast
    have "rect_area rc * T = A * wv h r" using s(3) rc(1) by (auto simp: area_inv_def)
    then show ?thesis using rc by blast
  qed
  then show ?thesis using s(1) unfolding T_def A_def by blast
qed

lemma squarify_even:
  assumes ws: "\<forall>r\<in>set its. weight (h r) = Fin 0"
    and bw: "fin_nonneg (width b)" and bh: "fin_nonneg (height b)"
  shows "\<exists>s. squarify h its b = Inr s \<and>
     (\<forall>r\<in>set its. \<exists>a. area (objs (mem s) r) = Fin a \<and>
        a * of_nat (length its) = fin_val (width b) * fin_val (height b))"
proof -
  define N :: rat where "N = of_nat (length its)"
  define A where "A = fin_val (width b) * fin_val (height b)"
  define P where "P = (\<lambda>s. base_inv h its s \<and> even_inv N A s)"
  have ws': "\<forall>r\<in>set its. fin_nonneg (weight (h r))" using ws by simp
  have "(\<Sum>r\<leftarrow>its. wv h r) = (\<Sum>r\<leftarrow>its. 0)"
    by (rule arg_cong[where f = sum_list], rule map_cong) (use ws in \<open>simp_all add: wv_def\<close>)
  then have z: "(\<Sum>r\<leftarrow>its. wv h r) = 0" by simp
  have "\<exists>s. squarify_loop (init h its b) = Inr s \<and> P s \<and> sorted_arr s = [] \<and> row s = []"
  proof (rule squarify_loop_rule[where P = P])
    show "P (init h its b)"
      unfolding P_def using base_inv_init[OF ws' bw bh]
      by (simp add: even_inv_def init_remaining[OF ws'] init_bounds_area init_assigned
          init_itemsRemaining z N_def A_def)
  qed (auto simp: P_def init_fresh intro: base_inv_split even_inv_split draw_row_effect(1) even_inv_draw)
  then obtain s where s: "squarify h its b = Inr s" "base_inv h its s" "even_inv N A s"
    "sorted_arr s = []" "row s = []"
    by (auto simp: squarify_def P_def)
  have "\<exists>a. area (objs (mem s) r) = Fin a \<and> a * N = A" if r: "r \<in> set its" for r
  proof -
    obtain rc where rc: "(r, rc) \<in> set (assigned (mem s))" "area (objs (mem s) r) = Fin (rect_area rc)"
      using final_area[OF s(2) s(4) s(5) r] by blast
    have "rect_area rc * N = A" using s(3) rc(1) by (auto simp: even_inv_def)
    then show ?thesis using rc by blast
  qed
  then show ?thesis using s(1) unfolding N_def A_def by blast
qed

lemma foldl_area_fin:
  "\<forall>r\<in>set rs. area (hp r) = Fin (f r) \<Longrightarrow>
   foldl (\<lambda>sum item. num_add sum (area (hp item))) (Fin a) rs = Fin (a + (\<Sum>r\<leftarrow>rs. f r))"
proof (induction rs arbitrary: a)
  case Nil
  then show ?case by simp
next
  case (Cons r rs)
  have w: "area (hp r) = Fin (f r)" using Cons.prems by simp
  have "foldl (\<lambda>sum item. num_add sum (area (hp item))) (Fin a) (r # rs) =
        foldl (\<lambda>sum item. num_add sum (area (hp item))) (Fin (a + f r)) rs"
    by (simp add: w)
  also have "\<dots> = Fin (a + f r + (\<Sum>r\<leftarrow>rs. f r))"
    by (rule Cons.IH) (use Cons.prems in simp)
  finally show ?case by (simp add: add.assoc)
qed

lemma sum_list_cong_set:
  "(\<And>r. r \<in> set rs \<Longrightarrow> f r = (g r :: rat)) \<Longrightarrow> (\<Sum>r\<leftarrow>rs. f r) = (\<Sum>r\<leftarrow>rs. g r)"
  by (rule arg_cong[where f = sum_list], rule map_cong) simp_all

section \<open>A shorter edge of 0\<close>

lemma num_ge_MAX: "num_ge PInf MAX_VALUE" "num_ge MAX_VALUE MAX_VALUE"
  by (simp_all add: num_ge_def MAX_VALUE_def)

lemma calc_flat:
  "rw \<noteq> [] \<Longrightarrow> calculateWorstAspectRatioInRow m rw (Fin 0) b = Inr MAX_VALUE"
  by (cases rw) (simp_all add: calculateWorstAspectRatioInRow_def num_eq_def)

lemma squarify_loop_done: "sorted_arr s = [] \<Longrightarrow> squarify_loop s = Inr s"
  by (simp add: squarify_loop.simps[of s])

lemma draw_row_final: "sorted_arr s = [] \<Longrightarrow> squarify_loop (draw_row s) = Inr (draw_row s)"
  by (simp add: squarify_loop.simps[of "draw_row s"] draw_row_sorted_arr)

text \<open>With a shorter edge of 0 the loop takes every item into the row and lays it out once.\<close>

lemma flat_loop:
  assumes "lengthOfShorterEdge s = Fin 0"
    and "lastAspectRatio s = PInf \<or> lastAspectRatio s = MAX_VALUE"
    and "sorted_arr s \<noteq> []"
  shows "squarify_loop s =
           Inr (draw_row (s\<lparr>sorted_arr := [], row := row s @ sorted_arr s,
                            lastAspectRatio := MAX_VALUE\<rparr>))"
  using assms
proof (induction "sorted_arr s" arbitrary: s)
  case Nil
  then show ?case by simp
next
  case (Cons a rest)
  have sa: "sorted_arr s = a # rest" using Cons.hyps(2) by simp
  define s2 where "s2 = s\<lparr>sorted_arr := rest, row := row s @ [a], lastAspectRatio := MAX_VALUE\<rparr>"
  have ge: "num_ge (lastAspectRatio s) MAX_VALUE"
    using Cons.prems(2) by (auto simp: num_ge_MAX)
  have body: "loop_body s = (if rest = [] then Inr (draw_row s2) else Inr s2)"
    using ge by (simp add: loop_body_def Let_def sa Cons.prems(1) calc_flat s2_def)
  show ?case
  proof (cases "rest = []")
    case True
    have "squarify_loop s = squarify_loop (draw_row s2)"
      using body True by (simp add: squarify_loop.simps[of s] sa)
    also have "\<dots> = Inr (draw_row s2)"
      by (rule draw_row_final) (simp add: s2_def True)
    finally show ?thesis by (simp add: s2_def sa True)
  next
    case False
    have "squarify_loop s = squarify_loop s2"
      using body False by (simp add: squarify_loop.simps[of s] sa)
    also have "\<dots> = Inr (draw_row (s2\<lparr>sorted_arr := [], row := row s2 @ sorted_arr s2,
                            lastAspectRatio := MAX_VALUE\<rparr>))"
      by (rule Cons.hyps(1)) (use False Cons.prems(1) in \<open>simp_all add: s2_def\<close>)
    finally show ?thesis by (simp add: s2_def sa)
  qed
qed

lemma draw_row_committed: "committed (draw_row s) = committed s @ [row s]"
  by (simp add: draw_row_def split: prod.splits)

lemma flat_squarify:
  assumes "Math_min (width b) (height b) = Fin 0"
  shows "squarify h its b =
     (if its = [] then Inr (init h its b)
      else Inr (draw_row ((init h its b)\<lparr>sorted_arr := [], row := sort_by_weight h its,
                            lastAspectRatio := MAX_VALUE\<rparr>)))"
proof (cases "its = []")
  case True
  then show ?thesis
    by (simp add: squarify_def squarify_loop_done init_def sort_by_weight_def)
next
  case False
  have "mset (sort_by_weight h its) \<noteq> {#}" using False by (simp add: mset_sort_by_weight)
  then have ne: "sort_by_weight h its \<noteq> []" by auto
  have "squarify_loop (init h its b) =
      Inr (draw_row ((init h its b)\<lparr>sorted_arr := [],
            row := row (init h its b) @ sorted_arr (init h its b),
            lastAspectRatio := MAX_VALUE\<rparr>))"
    by (rule flat_loop) (use assms ne in \<open>simp_all add: init_def Let_def POSITIVE_INFINITY_def\<close>)
  then show ?thesis using False by (simp add: squarify_def init_def Let_def)
qed

lemma flat_rows:
  assumes "Math_min (width b) (height b) = Fin 0"
  shows "rows_after h its b = (if its = [] then [] else [sort_by_weight h its])"
  by (simp add: rows_after_def flat_squarify[OF assms] draw_row_committed init_def Let_def)

lemma zero_inv_split:
  "zero_inv s \<Longrightarrow> zero_inv (s\<lparr>sorted_arr := sa, row := rw, lastAspectRatio := la\<rparr>)"
  by (simp add: zero_inv_def bounds_area_def)

lemma zero_inv_draw:
  assumes base: "base_inv h its s" and z: "zero_inv s" and ne: "row s \<noteq> []"
  shows "zero_inv (draw_row s)"
proof -
  note eff = draw_row_effect[OF base ne]
  have b0: "bounds_area s = 0" using z by (simp add: zero_inv_def)
  obtain new where new: "assigned (mem (draw_row s)) = assigned (mem s) @ new"
    "\<forall>e \<in> set new. fst e \<in> set (row s) \<and>
              rect_area (snd e) =
                bounds_area s * item_share (remaining_weight s) (itemsRemaining (mem s)) (wv h (fst e))"
    using eff(6) by blast
  have "\<forall>e \<in> set new. rect_area (snd e) = 0" using new(2) b0 by simp
  then show ?thesis using z eff(5) b0 by (auto simp: zero_inv_def new(1))
qed

lemma squarify_zero:
  assumes ws: "\<forall>r\<in>set its. fin_nonneg (weight (h r))"
    and bw: "fin_nonneg (width b)" and bh: "fin_nonneg (height b)"
    and flat: "Math_min (width b) (height b) = Fin 0"
  shows "\<exists>s. squarify h its b = Inr s \<and>
     (\<forall>e\<in>set (assigned (mem s)). area (snd e) = Fin 0) \<and>
     (\<forall>r\<in>set its. area (objs (mem s) r) = Fin 0)"
proof -
  define P where "P = (\<lambda>s. base_inv h its s \<and> zero_inv s)"
  obtain p q where pq: "width b = Fin p" "height b = Fin q"
    using bw bh by (auto elim!: fin_nonnegE)
  have "min p q = 0" using flat by (simp add: pq Math_min_fin)
  then have "p * q = 0" by (auto simp: min_def split: if_splits)
  then have A0: "bounds_area (init h its b) = 0" by (simp add: init_bounds_area pq)
  have "\<exists>s. squarify_loop (init h its b) = Inr s \<and> P s \<and> sorted_arr s = [] \<and> row s = []"
  proof (rule squarify_loop_rule[where P = P])
    show "P (init h its b)"
      unfolding P_def using base_inv_init[OF ws bw bh] A0
      by (simp add: zero_inv_def init_assigned)
  qed (auto simp: P_def init_fresh intro: base_inv_split zero_inv_split draw_row_effect(1) zero_inv_draw)
  then obtain s where s: "squarify h its b = Inr s" "base_inv h its s" "zero_inv s"
    "sorted_arr s = []" "row s = []"
    by (auto simp: squarify_def P_def)
  have log: "area (snd e) = Fin 0" if e: "e \<in> set (assigned (mem s))" for e
  proof -
    have "fin_nonneg (width (snd e))" "fin_nonneg (height (snd e))"
      using s(2) e by (auto simp: base_inv_def num_inv_def)
    then obtain a c where ac: "width (snd e) = Fin a" "height (snd e) = Fin c"
      by (auto elim!: fin_nonnegE)
    have "rect_area (snd e) = 0" using s(3) e by (simp add: zero_inv_def)
    then show ?thesis by (simp add: area_def rect_area_def ac)
  qed
  have "area (objs (mem s) r) = Fin 0" if r: "r \<in> set its" for r
  proof -
    obtain rc where rc: "(r, rc) \<in> set (assigned (mem s))" "area (objs (mem s) r) = Fin (rect_area rc)"
      using final_area[OF s(2) s(4) s(5) r] by blast
    have "rect_area rc = 0" using s(3) rc(1) by (auto simp: zero_inv_def)
    then show ?thesis using rc(2) by simp
  qed
  then show ?thesis using s(1) log by blast
qed

section \<open>Inside a row, and the divisors\<close>

lemma loop_body_choose:
  "loop_body s =
     (case choose_row s of
        Inl e \<Rightarrow> Inl e
      | Inr (u, d) \<Rightarrow> Inr (if d then draw_row u else u))"
proof (cases "calculateWorstAspectRatioInRow (mem s) (row s @ [hd (sorted_arr s)])
                (lengthOfShorterEdge s) (rootbounds s)")
  case (Inl e)
  then show ?thesis by (simp add: loop_body_def choose_row_def Let_def)
next
  case (Inr ar)
  then show ?thesis by (simp add: loop_body_def choose_row_def Let_def)
qed

lemma last_layout_trace:
  "last (layout_trace hz b sh c S n rs p m) = layout_items hz b sh c S n rs p m"
proof (induction rs arbitrary: p m)
  case Nil
  then show ?case by simp
next
  case (Cons item rest)
  have ne: "layout_trace hz b sh c S n rest p' m' \<noteq> []" for p' m'
    by (cases rest) (simp_all add: Let_def)
  show ?case by (simp add: Let_def ne Cons.IH)
qed

lemma row_trace_layoutRow:
  "fst (layoutRow (mem u) (row u) (lengthOfShorterEdge u) (rootbounds u)) =
     (last (row_trace u))\<lparr>totalRemainingWeightSum :=
        num_sub (totalRemainingWeightSum (last (row_trace u)))
          (sumWeights (objs (mem u)) (row u))\<rparr>"
  by (simp add: layoutRow_def row_trace_def Let_def last_layout_trace)

lemma layout_trace_elem:
  "m' \<in> set (layout_trace hz b sh c S n rs p m) \<Longrightarrow>
   \<exists>k\<le>length rs. itemsRemaining m' = itemsRemaining m - int k \<and>
      map fst (assigned m') = map fst (assigned m) @ take k rs \<and>
      totalRemainingWeightSum m' = totalRemainingWeightSum m"
proof (induction rs arbitrary: p m)
  case Nil
  then show ?case by simp
next
  case (Cons item rest)
  define e where "e = num_mul sh (item_ratio (weight (objs m item)) S n)"
  define m1 where "m1 = m\<lparr>objs := (objs m)(item := set_rect (objs m item) (item_rect hz b p e c)),
              itemsRemaining := itemsRemaining m - 1,
              assigned := assigned m @ [(item, item_rect hz b p e c)]\<rparr>"
  have tr: "layout_trace hz b sh c S n (item # rest) p m =
      m # layout_trace hz b sh c S n rest (num_add p e) m1"
    by (simp add: Let_def e_def m1_def)
  from Cons.prems consider "m' = m" | "m' \<in> set (layout_trace hz b sh c S n rest (num_add p e) m1)"
    unfolding tr by auto
  then show ?case
  proof cases
    case 1
    then show ?thesis by (intro exI[where x = 0]) simp
  next
    case 2
    from Cons.IH[OF 2] obtain k where k: "k \<le> length rest"
      "itemsRemaining m' = itemsRemaining m1 - int k"
      "map fst (assigned m') = map fst (assigned m1) @ take k rest"
      "totalRemainingWeightSum m' = totalRemainingWeightSum m1" by blast
    show ?thesis
      by (intro exI[where x = "Suc k"]) (use k in \<open>simp add: m1_def\<close>)
  qed
qed

lemma choose_row_keeps:
  assumes "sorted_arr s \<noteq> []" and "choose_row s = Inr (u, d)"
  shows "mem u = mem s" and "row u @ sorted_arr u = row s @ sorted_arr s"
    and "items u = items s" and "committed u = committed s"
    and "rootbounds u = rootbounds s" and "lengthOfShorterEdge u = lengthOfShorterEdge s"
proof -
  obtain a rest where sa: "sorted_arr s = a # rest"
    using assms(1) by (cases "sorted_arr s") auto
  show "mem u = mem s" and "row u @ sorted_arr u = row s @ sorted_arr s"
    and "items u = items s" and "committed u = committed s"
    and "rootbounds u = rootbounds s" and "lengthOfShorterEdge u = lengthOfShorterEdge s"
    using assms(2) by (auto simp: choose_row_def Let_def sa split: sum.splits if_splits)
qed

lemma struct_inv_choose:
  assumes "struct_inv h its s" and "sorted_arr s \<noteq> []" and "choose_row s = Inr (u, d)"
  shows "struct_inv h its u"
  using assms(1) choose_row_keeps[OF assms(2,3)] by (simp add: struct_inv_def)

lemma unplaced_mid:
  assumes "mset (map fst a0) + mset (rw @ sd) = mset its"
    and "map fst (assigned m) = map fst a0 @ take k rw"
  shows "unplaced its m = mset (drop k rw @ sd)"
proof -
  have "mset rw = mset (take k rw) + mset (drop k rw)"
    by (metis append_take_drop_id mset_append)
  then have "mset its = (mset (map fst a0) + mset (take k rw)) + mset (drop k rw @ sd)"
    using assms(1) by (simp add: ac_simps)
  moreover have "mset (map fst (assigned m)) = mset (map fst a0) + mset (take k rw)"
    using arg_cong[OF assms(2), of mset] by simp
  ultimately show ?thesis by (simp add: unplaced_def)
qed

lemma unplaced_head:
  assumes "struct_inv h its s"
  shows "unplaced its (mem s) = mset (row s @ sorted_arr s)"
  using unplaced_mid[of "assigned (mem s)" "row s" "sorted_arr s" its "mem s" 0] assms
  by (simp add: struct_inv_def)

lemma during_count:
  assumes ws: "\<forall>r\<in>set its. fin_nonneg (weight (h r))"
    and d: "during (init h its b) m"
  shows "itemsRemaining m = int (size (unplaced its m))"
  using d
proof (cases rule: during.cases)
  case (at_head s)
  have c: "count_inv h its s"
    using run_from_rule[where P = "count_inv h its", OF count_inv_split count_inv_draw
        count_inv_init[OF ws] _ at_head(2)]
    by (simp add: init_fresh)
  then have st: "struct_inv h its s" by (simp add: count_inv_def)
  show ?thesis
    using st unplaced_head[OF st] by (simp add: at_head(1) struct_inv_def)
next
  case (in_row s u)
  have c: "count_inv h its s"
    using run_from_rule[where P = "count_inv h its", OF count_inv_split count_inv_draw
        count_inv_init[OF ws] _ in_row(1)]
    by (simp add: init_fresh)
  then have "struct_inv h its s" by (simp add: count_inv_def)
  then have st: "struct_inv h its u" using in_row(2,3) by (rule struct_inv_choose)
  from in_row(4) obtain k where k: "k \<le> length (row u)"
    "itemsRemaining m = itemsRemaining (mem u) - int k"
    "map fst (assigned m) = map fst (assigned (mem u)) @ take k (row u)"
    unfolding row_trace_def Let_def using layout_trace_elem by blast
  have "unplaced its m = mset (drop k (row u) @ sorted_arr u)"
    using st k(3) by (intro unplaced_mid[of "assigned (mem u)"]) (simp_all add: struct_inv_def)
  then have "int (size (unplaced its m)) = int (length (row u) - k + length (sorted_arr u))"
    by simp
  also have "\<dots> = int (length (row u @ sorted_arr u)) - int k"
    using k(1) by simp
  also have "\<dots> = itemsRemaining m"
    using st k(2) by (simp add: struct_inv_def)
  finally show ?thesis by simp
qed

lemma sort_example_two: "sort_by_weight example_heap [0, 1] = [0, 1]"
  by (simp add: sort_by_weight_def compare_weight_def example_heap_def num_sub_def)

lemma flat_example_init:
  "sorted_arr (init example_heap [0, 1] flat_bounds) = [0, 1]"
  "row (init example_heap [0, 1] flat_bounds) = []"
  "lengthOfShorterEdge (init example_heap [0, 1] flat_bounds) = Fin 0"
  "lastAspectRatio (init example_heap [0, 1] flat_bounds) = PInf"
  by (simp_all add: init_def Let_def sort_example_two flat_bounds_def Math_min_fin
      POSITIVE_INFINITY_def del: One_nat_def)

lemma flat_first_pass:
  assumes "sorted_arr s = [0, 1]" "row s = []" "lengthOfShorterEdge s = Fin 0"
    "lastAspectRatio s = PInf"
  shows "loop_body s = Inr (s\<lparr>sorted_arr := [1], row := [0], lastAspectRatio := MAX_VALUE\<rparr>)"
  by (simp add: loop_body_def Let_def assms calc_flat num_ge_MAX del: One_nat_def)

lemma flat_second_pass:
  assumes "sorted_arr s = [0, 1]" "row s = []" "lengthOfShorterEdge s = Fin 0"
    "lastAspectRatio s = PInf"
  shows "choose_row (s\<lparr>sorted_arr := [1], row := [0], lastAspectRatio := MAX_VALUE\<rparr>) =
           Inr (s\<lparr>sorted_arr := [], row := [0, 1], lastAspectRatio := MAX_VALUE\<rparr>, True)"
  by (simp add: choose_row_def Let_def assms calc_flat num_ge_MAX del: One_nat_def)

lemma flat_row_frame_fields:
  "row flat_row_frame = [0, 1]"
  "mem flat_row_frame =
     \<lparr>objs = example_heap, totalRemainingWeightSum = sumWeights example_heap [0, 1],
      itemsRemaining = 2, assigned = []\<rparr>"
  by (simp_all add: flat_row_frame_def init_def Let_def sort_example_two del: One_nat_def)

lemma flat_example_mid:
  "map fst (assigned (row_trace flat_row_frame ! 1)) = [0]"
  "totalRemainingWeightSum (row_trace flat_row_frame ! 1) = Fin 5"
  "itemsRemaining (row_trace flat_row_frame ! 1) = 1"
  by (simp_all add: row_trace_def Let_def flat_row_frame_fields sumWeights_def example_heap_def)

lemma flat_example_during:
  "during (init example_heap [0, 1] flat_bounds) (row_trace flat_row_frame ! 1)"
proof -
  note i = flat_example_init
  have run: "run_from (init example_heap [0, 1] flat_bounds)
      ((init example_heap [0, 1] flat_bounds)
         \<lparr>sorted_arr := [1], row := [0], lastAspectRatio := MAX_VALUE\<rparr>)"
    by (rule run_from.pass[OF run_from.start _ flat_first_pass[OF i]])
      (simp add: i(1) del: One_nat_def)
  have ch: "choose_row ((init example_heap [0, 1] flat_bounds)
         \<lparr>sorted_arr := [1], row := [0], lastAspectRatio := MAX_VALUE\<rparr>) =
        Inr (flat_row_frame, True)"
    unfolding flat_row_frame_def by (rule flat_second_pass[OF i])
  have "length (row_trace flat_row_frame) = 3"
    by (simp add: row_trace_def Let_def flat_row_frame_fields)
  then have "row_trace flat_row_frame ! 1 \<in> set (row_trace flat_row_frame)"
    by (intro nth_mem) simp
  with run _ ch show ?thesis
    by (rule during.in_row) simp
qed

lemma set_insert_sorted: "set (insert_sorted h a bs) = insert a (set bs)"
  using mset_insert_sorted[of h a bs] by (metis mset_eq_setD set_mset_add_mset_insert set_mset_mset)

lemma sorted_insert_sorted:
  assumes fin: "fin_nonneg (weight (h a))" "\<forall>r\<in>set bs. fin_nonneg (weight (h r))"
    and srt: "sorted_wrt (\<lambda>p q. wv h q \<le> wv h p) bs"
  shows "sorted_wrt (\<lambda>p q. wv h q \<le> wv h p) (insert_sorted h a bs)"
  using fin(2) srt
proof (induction bs)
  case Nil
  then show ?case by simp
next
  case (Cons b bs)
  have wa: "weight (h a) = Fin (wv h a)" using fin(1) by (rule weight_fin)
  have "fin_nonneg (weight (h b))" using Cons.prems(1) by simp
  then have wb: "weight (h b) = Fin (wv h b)" by (rule weight_fin)
  have cmp: "num_less (Fin 0) (compare_weight h a b) = (wv h a < wv h b)"
    by (simp add: compare_weight_def wa wb num_sub_fin)
  show ?case
  proof (cases "wv h a < wv h b")
    case True
    have "sorted_wrt (\<lambda>p q. wv h q \<le> wv h p) (insert_sorted h a bs)"
      using Cons by simp
    then show ?thesis using True Cons.prems(2) by (auto simp: cmp set_insert_sorted)
  next
    case False
    then show ?thesis using Cons.prems(2) by (auto simp: cmp)
  qed
qed

lemma sorted_sort_by_weight:
  "\<forall>r\<in>set its. fin_nonneg (weight (h r)) \<Longrightarrow>
   sorted_wrt (\<lambda>p q. wv h q \<le> wv h p) (sort_by_weight h its)"
proof (induction its)
  case Nil
  then show ?case by (simp add: sort_by_weight_def)
next
  case (Cons a its)
  have "sorted_wrt (\<lambda>p q. wv h q \<le> wv h p) (insert_sorted h a (sort_by_weight h its))"
    using Cons by (intro sorted_insert_sorted) (simp_all add: set_sort_by_weight)
  then show ?case by (simp add: sort_by_weight_def)
qed

lemma flat_choose:
  assumes "lengthOfShorterEdge s = Fin 0"
    and "lastAspectRatio s = PInf \<or> lastAspectRatio s = MAX_VALUE"
    and "sorted_arr s = a # rest"
  shows "choose_row s =
     Inr (s\<lparr>sorted_arr := rest, row := row s @ [a], lastAspectRatio := MAX_VALUE\<rparr>, rest = [])"
proof -
  have "num_ge (lastAspectRatio s) MAX_VALUE"
    using assms(2) by (auto simp: num_ge_MAX)
  then show ?thesis
    by (simp add: choose_row_def Let_def assms(1,3) calc_flat)
qed

lemma flat_run:
  assumes flat: "Math_min (width b) (height b) = Fin 0"
    and run: "run_from (init h its b) s"
  shows "(mem s = mem (init h its b) \<and> rootbounds s = b \<and> lengthOfShorterEdge s = Fin 0 \<and>
          row s @ sorted_arr s = sort_by_weight h its \<and>
          (lastAspectRatio s = PInf \<or> lastAspectRatio s = MAX_VALUE)) \<or>
         sorted_arr s = []"
  using run
proof (induction rule: run_from.induct)
  case start
  then show ?case using flat by (simp add: init_def Let_def POSITIVE_INFINITY_def)
next
  case (pass s s')
  obtain a rest where sa: "sorted_arr s = a # rest"
    using pass(2) by (cases "sorted_arr s") auto
  have f: "mem s = mem (init h its b)" "rootbounds s = b" "lengthOfShorterEdge s = Fin 0"
    "row s @ sorted_arr s = sort_by_weight h its"
    "lastAspectRatio s = PInf \<or> lastAspectRatio s = MAX_VALUE"
    using pass(4) pass(2) by auto
  note ch = flat_choose[OF f(3) f(5) sa]
  show ?case
  proof (cases "rest = []")
    case True
    then have "s' = draw_row (s\<lparr>sorted_arr := rest, row := row s @ [a], lastAspectRatio := MAX_VALUE\<rparr>)"
      using pass(3) by (simp add: loop_body_choose ch)
    then show ?thesis using True by (simp add: draw_row_sorted_arr)
  next
    case False
    then have "s' = s\<lparr>sorted_arr := rest, row := row s @ [a], lastAspectRatio := MAX_VALUE\<rparr>"
      using pass(3) by (simp add: loop_body_choose ch)
    then show ?thesis using f sa by simp
  qed
qed

lemma calc_divisors_flat: "calc_divisors m rw (Fin 0) b = []"
  by (cases rw) (simp_all add: calc_divisors_def num_eq_def)

lemma layoutRow_divisors_zero:
  assumes "rw \<noteq> []" and "itemsRemaining m \<noteq> 0"
  shows "(\<exists>d\<in>set (layoutRow_divisors m rw sh b). num_eq d (Fin 0)) \<longleftrightarrow>
     num_eq (totalRemainingWeightSum m) (Fin 0) \<or> num_eq (sumWeights (objs m) rw) (Fin 0)"
proof -
  have n: "\<not> num_eq (num_of_int (itemsRemaining m)) (Fin 0)"
    "\<not> num_eq (num_of_nat (length rw)) (Fin 0)"
    using assms by (simp_all add: num_eq_def num_of_int_def num_of_nat_def)
  obtain a rest where rw: "rw = a # rest" using assms(1) by (cases rw) auto
  show ?thesis
    unfolding layoutRow_divisors_def Let_def using n
    by (auto simp: rw split: if_splits)
qed

lemma sumWeights_sort:
  assumes "\<forall>r\<in>set its. fin_nonneg (weight (h r))"
  shows "sumWeights h (sort_by_weight h its) = sumWeights h its"
proof -
  have "\<forall>r\<in>set (sort_by_weight h its). fin_nonneg (weight (h r))"
    using assms by (simp add: set_sort_by_weight)
  then have "sumWeights h (sort_by_weight h its) = Fin (\<Sum>r\<leftarrow>sort_by_weight h its. wv h r)"
    by (rule sumWeights_fin)
  then show ?thesis using sumWeights_fin[OF assms] by (simp add: sum_sort_by_weight)
qed

lemma head_of_layoutRow_divisors:
  "totalRemainingWeightSum m \<in> set (layoutRow_divisors m rw sh b)"
  by (simp add: layoutRow_divisors_def Let_def)

lemma num_eq_zero: "num_eq d (Fin 0) = (d = Fin 0)"
  by (cases d) (auto simp: num_eq_def)

lemma sort_nonempty: "its \<noteq> [] \<Longrightarrow> sort_by_weight h its \<noteq> []"
  using mset_sort_by_weight[of h its] by (metis mset_zero_iff)

lemma init_mem_fields:
  "totalRemainingWeightSum (mem (init h its b)) = sumWeights h (sort_by_weight h its)"
  "objs (mem (init h its b)) = h"
  "itemsRemaining (mem (init h its b)) = int (length (sort_by_weight h its))"
  "sorted_arr (init h its b) = sort_by_weight h its"
  by (simp_all add: init_def Let_def)

text \<open>With a shorter edge of 0 the call divides by zero exactly when the weights sum to 0.\<close>

lemma flat_divides:
  assumes flat: "Math_min (width b) (height b) = Fin 0"
    and ws: "\<forall>r\<in>set its. fin_nonneg (weight (h r))"
  shows "(\<exists>d. divides_by (init h its b) d \<and> num_eq d (Fin 0)) \<longleftrightarrow>
           its \<noteq> [] \<and> sumWeights h its = Fin 0"
proof
  assume "\<exists>d. divides_by (init h its b) d \<and> num_eq d (Fin 0)"
  then obtain d where d: "divides_by (init h its b) d" and z: "d = Fin 0"
    by (auto simp: num_eq_zero)
  from d show "its \<noteq> [] \<and> sumWeights h its = Fin 0"
  proof (cases rule: divides_by.cases)
    case (in_probe s)
    have "lengthOfShorterEdge s = Fin 0"
      using flat_run[OF flat in_probe(1)] in_probe(2) by auto
    then show ?thesis using in_probe(3) by (simp add: calc_divisors_flat)
  next
    case (in_layout s u)
    obtain a rest where sa: "sorted_arr s = a # rest"
      using in_layout(2) by (cases "sorted_arr s") auto
    have f: "mem s = mem (init h its b)" "rootbounds s = b" "lengthOfShorterEdge s = Fin 0"
      "row s @ sorted_arr s = sort_by_weight h its"
      "lastAspectRatio s = PInf \<or> lastAspectRatio s = MAX_VALUE"
      using flat_run[OF flat in_layout(1)] in_layout(2) by auto
    have u: "u = s\<lparr>sorted_arr := rest, row := row s @ [a], lastAspectRatio := MAX_VALUE\<rparr>"
      and r: "rest = []"
      using in_layout(3) flat_choose[OF f(3) f(5) sa] by auto
    have ru: "row u = sort_by_weight h its" using f(4) by (simp add: u sa r)
    have mu: "mem u = mem (init h its b)" using f(1) by (simp add: u)
    have ne: "sort_by_weight h its \<noteq> []" using ru by (auto simp: u)
    then have ine: "its \<noteq> []" by (auto simp: sort_by_weight_def)
    have "\<exists>d\<in>set (layoutRow_divisors (mem (init h its b)) (sort_by_weight h its)
        (lengthOfShorterEdge u) (rootbounds u)). num_eq d (Fin 0)"
      using in_layout(4) z by (auto simp: ru mu num_eq_zero)
    then have "sumWeights h (sort_by_weight h its) = Fin 0"
      using ne
      by (subst (asm) layoutRow_divisors_zero) (auto simp: init_mem_fields num_eq_zero)
    then show ?thesis using ine by (simp add: sumWeights_sort[OF ws])
  qed
next
  assume a: "its \<noteq> [] \<and> sumWeights h its = Fin 0"
  obtain sf where sf: "squarify h its b = Inr sf" "sorted_arr sf = []"
    using squarify_struct[of h its b] by blast
  have run: "run_from (init h its b) sf"
    using sf(1) unfolding squarify_def by (rule squarify_loop_run)
  have ne: "sorted_arr (init h its b) \<noteq> []"
    using a by (simp add: init_mem_fields sort_nonempty)
  from run obtain s where s: "run_from (init h its b) s" "sorted_arr s \<noteq> []"
    "loop_body s = Inr sf"
    using ne sf(2) by (cases rule: run_from.cases) auto
  obtain c rest where sa: "sorted_arr s = c # rest"
    using s(2) by (cases "sorted_arr s") auto
  have f: "mem s = mem (init h its b)" "lengthOfShorterEdge s = Fin 0"
    "lastAspectRatio s = PInf \<or> lastAspectRatio s = MAX_VALUE"
    using flat_run[OF flat s(1)] s(2) by auto
  note ch = flat_choose[OF f(2) f(3) sa]
  have r: "rest = []"
  proof (rule ccontr)
    assume "rest \<noteq> []"
    then have "sf = s\<lparr>sorted_arr := rest, row := row s @ [c], lastAspectRatio := MAX_VALUE\<rparr>"
      using s(3) by (simp add: loop_body_choose ch)
    then show False using sf(2) \<open>rest \<noteq> []\<close> by simp
  qed
  define u where "u = s\<lparr>sorted_arr := rest, row := row s @ [c], lastAspectRatio := MAX_VALUE\<rparr>"
  have chu: "choose_row s = Inr (u, True)" using ch r by (simp add: u_def)
  have "totalRemainingWeightSum (mem u) = Fin 0"
    using a f(1) by (simp add: u_def init_mem_fields sumWeights_sort[OF ws])
  moreover have "totalRemainingWeightSum (mem u) \<in>
      set (layoutRow_divisors (mem u) (row u) (lengthOfShorterEdge u) (rootbounds u))"
    by (rule head_of_layoutRow_divisors)
  ultimately have "divides_by (init h its b) (Fin 0)"
    using divides_by.in_layout[OF s(1) s(2) chu] by metis
  then show "\<exists>d. divides_by (init h its b) d \<and> num_eq d (Fin 0)"
    by (auto simp: num_eq_zero)
qed

lemma flat_committed:
  assumes flat: "Math_min (width b) (height b) = Fin 0"
    and s: "squarify h its b = Inr s"
  shows "committed s = (if its = [] then [] else [sort_by_weight h its])"
  using flat_rows[OF flat, of h its] s by (simp add: rows_after_def)

section \<open>Termination and effects on the caller's data\<close>

text \<open>
  C6: for every input, of any numbers, \<^verbatim>\<open>squarify\<close> ends (the loop is a total function
  by its measure, and it returns the final frame), with at most as many rows laid out
  as there are items and exactly as many placements; and a pass entered with
  \<open>lastAspectRatio = +\<infinity>\<close>, as every new row is, does not push its item back.
\<close>

theorem squarify_terminates:
  "(\<exists>s. squarify h its bounds = Inr s \<and> sorted_arr s = [] \<and>
        length (committed s) \<le> length its \<and>
        length (assigned (mem s)) = length its) \<and>
   (\<forall>s. lastAspectRatio s = PInf \<and> sorted_arr s \<noteq> [] \<longrightarrow>
        (\<exists>s'. loop_body s = Inr s' \<and> sorted_arr s' = tl (sorted_arr s)))"
proof (intro conjI allI impI)
  obtain s where s: "squarify h its bounds = Inr s" "struct_inv h its s"
    "sorted_arr s = []" "row s = []"
    using squarify_struct by blast
  have m: "mset (map fst (assigned (mem s))) = mset its"
    using s(2,3,4) by (simp add: struct_inv_def)
  have "length (map fst (assigned (mem s))) = length its"
    using m by (rule mset_eq_length)
  then have n: "length (assigned (mem s)) = length its" by simp
  have "length (committed s) \<le> length (concat (committed s))"
    using s(2) by (intro length_le_concat) (simp add: struct_inv_def)
  also have "\<dots> = length its"
    using s(2) n by (simp add: struct_inv_def)
  finally show "\<exists>s. squarify h its bounds = Inr s \<and> sorted_arr s = [] \<and>
        length (committed s) \<le> length its \<and>
        length (assigned (mem s)) = length its"
    using s(1,3) n by blast
next
  fix s :: frame
  assume a: "lastAspectRatio s = PInf \<and> sorted_arr s \<noteq> []"
  obtain ar where ar: "calculateWorstAspectRatioInRow (mem s) (row s @ [hd (sorted_arr s)])
                (lengthOfShorterEdge s) (rootbounds s) = Inr ar"
    using calc_nonempty[of "row s @ [hd (sorted_arr s)]" "mem s" "lengthOfShorterEdge s"
        "rootbounds s"]
    by auto
  show "\<exists>s'. loop_body s = Inr s' \<and> sorted_arr s' = tl (sorted_arr s)"
    using a ar by (auto simp: loop_body_def Let_def num_ge_PInf draw_row_sorted_arr)
qed

theorem squarify_terminates_witness:
  "lastAspectRatio (init example_heap [0, 1, 2] example_bounds) = PInf \<and>
   sorted_arr (init example_heap [0, 1, 2] example_bounds) \<noteq> [] \<and>
   (\<exists>s'. loop_body (init example_heap [0, 1, 2] example_bounds) = Inr s' \<and>
         sorted_arr s' = tl (sorted_arr (init example_heap [0, 1, 2] example_bounds))) \<and>
   (\<exists>s. squarify example_heap [0, 1, 2] example_bounds = Inr s \<and> sorted_arr s = [] \<and>
        length (committed s) \<le> 3 \<and> length (assigned (mem s)) = 3)"
proof -
  note t = squarify_terminates[of example_heap "[0, 1, 2]" example_bounds]
  have f: "lastAspectRatio (init example_heap [0, 1, 2] example_bounds) = PInf"
    by (rule init_fresh)
  have "mset (sorted_arr (init example_heap [0, 1, 2] example_bounds)) = mset [0, 1, 2]"
    by (simp add: init_def Let_def mset_sort_by_weight)
  then have n: "sorted_arr (init example_heap [0, 1, 2] example_bounds) \<noteq> []"
    by auto
  have "\<exists>s'. loop_body (init example_heap [0, 1, 2] example_bounds) = Inr s' \<and>
         sorted_arr s' = tl (sorted_arr (init example_heap [0, 1, 2] example_bounds))"
    using t f n by blast
  moreover have "\<exists>s. squarify example_heap [0, 1, 2] example_bounds = Inr s \<and>
        sorted_arr s = [] \<and> length (committed s) \<le> 3 \<and> length (assigned (mem s)) = 3"
    using t by auto
  ultimately show ?thesis using f n by blast
qed

text \<open>
  C7: \<^verbatim>\<open>calculateWorstAspectRatioInRow\<close> throws exactly on the empty row; no pass of the
  loop throws, whatever its frame, since the row it passes ends with the item just
  pushed; so \<^verbatim>\<open>squarify\<close> throws on no input.
\<close>

theorem empty_row_error_unreachable:
  "(calculateWorstAspectRatioInRow m rw shorter b = Inl EmptyRow) = (rw = []) \<and>
   loop_body s \<noteq> Inl e \<and>
   squarify h its bounds \<noteq> Inl e"
proof (intro conjI)
  show "(calculateWorstAspectRatioInRow m rw shorter b = Inl EmptyRow) = (rw = [])"
    by (cases rw) (auto simp: calculateWorstAspectRatioInRow_def Let_def split: prod.splits)
next
  obtain ar where "calculateWorstAspectRatioInRow (mem s) (row s @ [hd (sorted_arr s)])
                (lengthOfShorterEdge s) (rootbounds s) = Inr ar"
    using calc_nonempty[of "row s @ [hd (sorted_arr s)]" "mem s" "lengthOfShorterEdge s"
        "rootbounds s"]
    by auto
  then show "loop_body s \<noteq> Inl e"
    by (simp add: loop_body_def Let_def)
next
  show "squarify h its bounds \<noteq> Inl e"
    using squarify_struct[of h its bounds] by auto
qed

theorem empty_row_error_unreachable_witness:
  "calculateWorstAspectRatioInRow (mem (init example_heap [0, 1, 2] example_bounds)) []
     (Fin 100) example_bounds = Inl EmptyRow \<and>
   loop_body (init example_heap [0, 1, 2] example_bounds) \<noteq> Inl EmptyRow \<and>
   squarify example_heap [0, 1, 2] example_bounds \<noteq> Inl EmptyRow"
  using empty_row_error_unreachable[of "mem (init example_heap [0, 1, 2] example_bounds)" "[]"
      "Fin 100" example_bounds "init example_heap [0, 1, 2] example_bounds" EmptyRow
      example_heap "[0, 1, 2]" example_bounds]
  by simp

text \<open>
  C8: after the call the caller's array holds the same references at the same indices:
  only the copy \<open>sorted_arr\<close> is sorted and taken apart.
\<close>

theorem caller_array_unchanged:
  "\<exists>s. squarify h its bounds = Inr s \<and> items s = its"
  using squarify_struct[of h its bounds] by (auto simp: struct_inv_def)

theorem caller_array_unchanged_witness:
  "sorted_arr (init example_heap [2, 0, 1] example_bounds) = [0, 1, 2] \<and>
   (\<exists>s. squarify example_heap [2, 0, 1] example_bounds = Inr s \<and> items s = [2, 0, 1])"
proof -
  have "sort_by_weight example_heap [2, 0, 1] = [0, 1, 2]"
    by (simp add: sort_by_weight_def compare_weight_def example_heap_def num_sub_def)
  then have "sorted_arr (init example_heap [2, 0, 1] example_bounds) = [0, 1, 2]"
    by (simp add: init_def Let_def del: One_nat_def)
  then show ?thesis
    using caller_array_unchanged[of example_heap "[2, 0, 1]" example_bounds] by blast
qed

text \<open>
  C10: after the call every object of the heap, so every item, has the weight it had
  before: the engine writes \<^verbatim>\<open>x, y, width, height\<close> only.
\<close>

theorem weight_unchanged:
  "\<exists>s. squarify h its bounds = Inr s \<and> (\<forall>r. weight (objs (mem s) r) = weight (h r))"
  using squarify_struct[of h its bounds] by (auto simp: struct_inv_def)

theorem weight_unchanged_witness:
  "\<exists>s. squarify example_heap [0, 1, 2] example_bounds = Inr s \<and>
       weight (objs (mem s) 0) = Fin 3 \<and> weight (objs (mem s) 1) = Fin 2 \<and>
       weight (objs (mem s) 2) = Fin 1"
  using weight_unchanged[of example_heap "[0, 1, 2]" example_bounds]
  by (auto simp: example_heap_def)

section \<open>The counters and the placements\<close>

text \<open>
  C5, as amended: with finite non-negative weights, throughout the run, also inside
  \<^verbatim>\<open>layoutRow\<close>, \<open>itemsRemaining\<close> is the number of the items not yet assigned a
  rectangle; at every head of the main loop these are the items in the row and in the
  working list, and \<open>totalRemainingWeightSum\<close> is the sum of their weights (inside
  \<^verbatim>\<open>layoutRow\<close> it is only reduced at line 227, after the items of the row have been
  placed). The call ends at such a head with both counters exactly 0, the placements a
  permutation of the input, and every item holding a rectangle that was assigned to
  it: every item is assigned once.
\<close>

theorem remaining_counters:
  assumes "\<forall>r\<in>set its. fin_nonneg (weight (h r))"
  shows "(\<forall>m. during (init h its bounds) m \<longrightarrow>
            itemsRemaining m = int (size (unplaced its m))) \<and>
         (\<forall>s. run_from (init h its bounds) s \<longrightarrow>
            unplaced its (mem s) = mset (row s @ sorted_arr s) \<and>
            mset (map fst (assigned (mem s))) + unplaced its (mem s) = mset its \<and>
            totalRemainingWeightSum (mem s) =
              Fin (sum_mset (image_mset (wv h) (unplaced its (mem s))))) \<and>
         (\<exists>s. squarify h its bounds = Inr s \<and> run_from (init h its bounds) s \<and>
            sorted_arr s = [] \<and> row s = [] \<and>
            itemsRemaining (mem s) = 0 \<and> totalRemainingWeightSum (mem s) = Fin 0 \<and>
            mset (map fst (assigned (mem s))) = mset its \<and>
            (\<forall>r\<in>set its. (r, rect_of (objs (mem s) r)) \<in> set (assigned (mem s))))"
proof (intro conjI allI impI)
  fix m assume "during (init h its bounds) m"
  with assms show "itemsRemaining m = int (size (unplaced its m))" by (rule during_count)
next
  fix s assume run: "run_from (init h its bounds) s"
  have c: "count_inv h its s"
    using run_from_rule[where P = "count_inv h its", OF count_inv_split count_inv_draw
        count_inv_init[OF assms] _ run]
    by (simp add: init_fresh)
  then have st: "struct_inv h its s" and su: "sum_inv s" by (simp_all add: count_inv_def)
  show u: "unplaced its (mem s) = mset (row s @ sorted_arr s)"
    using st by (rule unplaced_head)
  show "mset (map fst (assigned (mem s))) + unplaced its (mem s) = mset its"
    unfolding u using st by (simp add: struct_inv_def)
  have ws: "\<forall>r\<in>set (row s @ sorted_arr s). fin_nonneg (weight (objs (mem s) r))"
    using su by (simp add: sum_inv_def)
  have wvh: "wv (objs (mem s)) r = wv h r" for r
    by (rule wv_cong) (use st in \<open>simp add: struct_inv_def\<close>)
  have "totalRemainingWeightSum (mem s) = sumWeights (objs (mem s)) (row s @ sorted_arr s)"
    using su by (simp add: sum_inv_def)
  also have "\<dots> = Fin (\<Sum>r\<leftarrow>row s @ sorted_arr s. wv h r)"
    using sumWeights_fin[OF ws] by (simp add: wvh)
  also have "(\<Sum>r\<leftarrow>row s @ sorted_arr s. wv h r) =
      sum_mset (image_mset (wv h) (mset (row s @ sorted_arr s)))"
    by (metis mset_map sum_mset_sum_list)
  finally show "totalRemainingWeightSum (mem s) =
              Fin (sum_mset (image_mset (wv h) (unplaced its (mem s))))"
    by (simp add: u)
next
  obtain s where s: "squarify h its bounds = Inr s" "count_inv h its s"
    "sorted_arr s = []" "row s = []"
    using squarify_count[OF assms] by blast
  have st: "struct_inv h its s" and su: "sum_inv s" using s(2) by (simp_all add: count_inv_def)
  have run: "run_from (init h its bounds) s"
    using s(1) unfolding squarify_def by (rule squarify_loop_run)
  have "itemsRemaining (mem s) = 0 \<and> totalRemainingWeightSum (mem s) = Fin 0 \<and>
            mset (map fst (assigned (mem s))) = mset its"
    using st su s(3,4) by (simp add: struct_inv_def sum_inv_def sumWeights_def)
  moreover have "\<forall>r\<in>set its. (r, rect_of (objs (mem s) r)) \<in> set (assigned (mem s))"
    using final_objs[OF st s(3,4)] by blast
  ultimately show "\<exists>s. squarify h its bounds = Inr s \<and> run_from (init h its bounds) s \<and>
            sorted_arr s = [] \<and> row s = [] \<and>
            itemsRemaining (mem s) = 0 \<and> totalRemainingWeightSum (mem s) = Fin 0 \<and>
            mset (map fst (assigned (mem s))) = mset its \<and>
            (\<forall>r\<in>set its. (r, rect_of (objs (mem s) r)) \<in> set (assigned (mem s)))"
    using s(1,3,4) run by blast
qed

theorem remaining_counters_witness:
  "fin_nonneg (weight (example_heap 0)) \<and> fin_nonneg (weight (example_heap 1)) \<and>
   fin_nonneg (weight (example_heap 2)) \<and>
   itemsRemaining (mem (init example_heap [0, 1, 2] example_bounds)) =
     int (size (unplaced [0, 1, 2] (mem (init example_heap [0, 1, 2] example_bounds)))) \<and>
   totalRemainingWeightSum (mem (init example_heap [0, 1, 2] example_bounds)) =
     Fin (sum_mset (image_mset (wv example_heap)
            (unplaced [0, 1, 2] (mem (init example_heap [0, 1, 2] example_bounds))))) \<and>
   (\<exists>s. squarify example_heap [0, 1, 2] example_bounds = Inr s \<and>
        itemsRemaining (mem s) = 0 \<and> totalRemainingWeightSum (mem s) = Fin 0 \<and>
        mset (map fst (assigned (mem s))) = mset [0, 1, 2] \<and>
        (0, rect_of (objs (mem s) 0)) \<in> set (assigned (mem s)))"
proof -
  have h: "\<forall>r\<in>set [0, 1, 2]. fin_nonneg (weight (example_heap r))"
    by (simp add: example_heap_def)
  note t = remaining_counters[OF h, of example_bounds]
  have r: "run_from (init example_heap [0, 1, 2] example_bounds)
      (init example_heap [0, 1, 2] example_bounds)"
    by (rule run_from.start)
  have d: "during (init example_heap [0, 1, 2] example_bounds)
      (mem (init example_heap [0, 1, 2] example_bounds))"
    using r by (rule during.at_head)
  have a: "itemsRemaining (mem (init example_heap [0, 1, 2] example_bounds)) =
     int (size (unplaced [0, 1, 2] (mem (init example_heap [0, 1, 2] example_bounds))))"
    using t d by blast
  have b: "totalRemainingWeightSum (mem (init example_heap [0, 1, 2] example_bounds)) =
     Fin (sum_mset (image_mset (wv example_heap)
            (unplaced [0, 1, 2] (mem (init example_heap [0, 1, 2] example_bounds)))))"
    using t r by blast
  have c: "\<exists>s. squarify example_heap [0, 1, 2] example_bounds = Inr s \<and>
        itemsRemaining (mem s) = 0 \<and> totalRemainingWeightSum (mem s) = Fin 0 \<and>
        mset (map fst (assigned (mem s))) = mset [0, 1, 2] \<and>
        (0, rect_of (objs (mem s) 0)) \<in> set (assigned (mem s))"
    using t by auto
  have f: "fin_nonneg (weight (example_heap 0)) \<and> fin_nonneg (weight (example_heap 1)) \<and>
   fin_nonneg (weight (example_heap 2))"
    by (simp add: example_heap_def)
  show ?thesis using a b c f by blast
qed

text \<open>
  C5 as stated fails inside \<^verbatim>\<open>layoutRow\<close>: in the run on the items of weights 3 and 2
  in bounds of width 0 and height 10, after the first item of the row has been assigned
  its rectangle only the item of weight 2 is not yet placed, and
  \<open>totalRemainingWeightSum\<close> is still 5 (line 227 has not run); \<open>itemsRemaining\<close> is 1.
\<close>

theorem mid_row_counterexample:
  "fin_nonneg (weight (example_heap 0)) \<and> fin_nonneg (weight (example_heap 1)) \<and>
   during (init example_heap [0, 1] flat_bounds) (row_trace flat_row_frame ! 1) \<and>
   unplaced [0, 1] (row_trace flat_row_frame ! 1) = {#1#} \<and>
   sum_mset (image_mset (wv example_heap) (unplaced [0, 1] (row_trace flat_row_frame ! 1))) = 2 \<and>
   totalRemainingWeightSum (row_trace flat_row_frame ! 1) = Fin 5 \<and>
   itemsRemaining (row_trace flat_row_frame ! 1) = 1"
proof -
  have u: "unplaced [0, 1] (row_trace flat_row_frame ! 1) = {#1#}"
    by (simp add: unplaced_def flat_example_mid(1) del: One_nat_def)
  have "sum_mset (image_mset (wv example_heap) {#1#}) = 2"
    by (simp add: wv_def example_heap_def)
  then show ?thesis
    using flat_example_during flat_example_mid(2,3) u
    by (simp add: example_heap_def)
qed

section \<open>Geometry of the rectangles\<close>

text \<open>
  In the exact arithmetic of this theory, with finite non-negative weights,
  \<open>bounds.width\<close> and \<open>bounds.height\<close>, every rectangle assigned has a width and a
  height that are \<open>\<ge> 0\<close>: there \<open>totalRemainingWeightSum\<close> never falls below the sum of
  the weights of a row. The engine computes in doubles, where it can.
\<close>

lemma exact_rectangles_nonnegative:
  assumes "\<forall>r\<in>set its. fin_nonneg (weight (h r))"
    and "fin_nonneg (width bounds)" and "fin_nonneg (height bounds)"
  shows "\<exists>s. squarify h its bounds = Inr s \<and>
     (\<forall>e\<in>set (assigned (mem s)). num_ge (width (snd e)) (Fin 0) \<and> num_ge (height (snd e)) (Fin 0)) \<and>
     (\<forall>r\<in>set its. num_ge (width (objs (mem s) r)) (Fin 0) \<and> num_ge (height (objs (mem s) r)) (Fin 0))"
proof -
  obtain s where s: "squarify h its bounds = Inr s" "base_inv h its s"
    "sorted_arr s = []" "row s = []"
    using squarify_base[OF assms] by blast
  have log: "fin_nonneg (width (snd e)) \<and> fin_nonneg (height (snd e))"
    if "e \<in> set (assigned (mem s))" for e
    using s(2) that by (simp add: base_inv_def num_inv_def)
  have "num_ge (width (objs (mem s) r)) (Fin 0) \<and> num_ge (height (objs (mem s) r)) (Fin 0)"
    if "r \<in> set its" for r
  proof -
    have "(r, rect_of (objs (mem s) r)) \<in> set (assigned (mem s))"
      using s(2,3,4) that by (intro final_objs[of h its]) (simp_all add: base_inv_def)
    from log[OF this] show ?thesis by (simp add: rect_of_sel fin_nonneg_ge)
  qed
  then show ?thesis using s(1) log by (blast intro: fin_nonneg_ge)
qed

text \<open>
  C9: the horizontal branch of \<^verbatim>\<open>layoutRow\<close> (lines 213-216) assigns the common edge
  unclamped. At the state \<open>rounded_memory\<close>, \<open>rounded_bounds\<close>, which the engine reaches on the valid input of
  weights 1, \<open>10\<^sup>1\<^sup>6\<close>, 5 in bounds 4 by 100, the common edge is
  \<open>3 / 2\<^sup>4\<^sup>6 \<times> (1 / -1)\<close>, and the item is assigned the height \<open>- 3 / 2\<^sup>4\<^sup>6\<close>, which is
  not \<open>\<ge> 0\<close>; the vertical branch (lines 220-221) would have clamped the same edge
  to 0.
\<close>

theorem horizontal_branch_unclamped:
  "assigned (fst (layoutRow rounded_memory [0] (Fin 0) rounded_bounds)) =
     [(0, \<lparr>x = Fin 4, y = Fin (7036874417766397 / 70368744177664), width = Fin 0,
           height = Fin (- (3 / 70368744177664))\<rparr>)] \<and>
   \<not> num_ge (Fin (- (3 / 70368744177664))) (Fin 0) \<and>
   width (item_rect False rounded_bounds (Fin 0) (Fin 0) (Fin (- (3 / 70368744177664)))) =
     Fin 0"
  by (simp add: layoutRow_def Let_def rounded_memory_def rounded_bounds_def rounded_heap_def
      sumWeights_def common_edge_def item_ratio_def item_rect_def num_eq_def num_ge_def
      Math_max_def)

section \<open>Areas\<close>

text \<open>
  C1: with finite non-negative weights of positive sum and finite non-negative
  \<open>bounds.width\<close> and \<open>bounds.height\<close>, the areas \<open>width \<times> height\<close> of the items
  after the call add up to exactly \<open>bounds.width \<times> bounds.height\<close>, the bounds taken
  as passed.
\<close>

theorem area_conservation:
  assumes ws: "\<forall>r\<in>set its. fin_nonneg (weight (h r))"
    and bw: "fin_nonneg (width bounds)" and bh: "fin_nonneg (height bounds)"
    and pos: "num_less (Fin 0) (sumWeights h its)"
  shows "\<exists>s. squarify h its bounds = Inr s \<and>
           sum_areas (objs (mem s)) its = num_mul (width bounds) (height bounds)"
proof -
  define T where "T = (\<Sum>r\<leftarrow>its. wv h r)"
  define A where "A = fin_val (width bounds) * fin_val (height bounds)"
  have "sumWeights h its = Fin T" unfolding T_def using ws by (rule sumWeights_fin)
  then have T0: "0 < T" using pos by simp
  obtain s where s: "squarify h its bounds = Inr s"
    and ar: "\<forall>r\<in>set its. \<exists>a. area (objs (mem s) r) = Fin a \<and> 0 \<le> a \<and> a * T = A * wv h r"
    using squarify_area[OF ws bw bh] unfolding T_def A_def by blast
  define f where "f = (\<lambda>r. fin_val (area (objs (mem s) r)))"
  have fa: "area (objs (mem s) r) = Fin (f r) \<and> f r * T = A * wv h r" if "r \<in> set its" for r
    using ar that by (auto simp: f_def)
  have "sum_areas (objs (mem s)) its = Fin (\<Sum>r\<leftarrow>its. f r)"
    unfolding sum_areas_def using foldl_area_fin[of its "objs (mem s)" f 0] fa by simp
  moreover have "(\<Sum>r\<leftarrow>its. f r) = A"
  proof -
    have "(\<Sum>r\<leftarrow>its. f r) * T = (\<Sum>r\<leftarrow>its. f r * T)"
      by (simp add: sum_list_mult_const)
    also have "\<dots> = (\<Sum>r\<leftarrow>its. A * wv h r)"
      by (rule sum_list_cong_set) (simp add: fa)
    also have "\<dots> = A * T" by (simp add: sum_list_const_mult T_def)
    finally show ?thesis using T0 by simp
  qed
  moreover have "num_mul (width bounds) (height bounds) = Fin A"
    using bw bh by (auto simp: A_def elim!: fin_nonnegE)
  ultimately show ?thesis using s by simp
qed

theorem area_conservation_witness:
  "fin_nonneg (weight (example_heap 0)) \<and> fin_nonneg (weight (example_heap 1)) \<and>
   fin_nonneg (weight (example_heap 2)) \<and>
   fin_nonneg (width example_bounds) \<and> fin_nonneg (height example_bounds) \<and>
   num_less (Fin 0) (sumWeights example_heap [0, 1, 2]) \<and>
   (\<exists>s. squarify example_heap [0, 1, 2] example_bounds = Inr s \<and>
        sum_areas (objs (mem s)) [0, 1, 2] = Fin 10000)"
proof -
  have h: "\<forall>r\<in>set [0, 1, 2]. fin_nonneg (weight (example_heap r))"
    by (simp add: example_heap_def)
  have w: "fin_nonneg (width example_bounds)" and g: "fin_nonneg (height example_bounds)"
    by (simp_all add: example_bounds_def)
  have p: "num_less (Fin 0) (sumWeights example_heap [0, 1, 2])"
    by (simp add: sumWeights_def example_heap_def)
  have "\<exists>s. squarify example_heap [0, 1, 2] example_bounds = Inr s \<and>
        sum_areas (objs (mem s)) [0, 1, 2] = Fin 10000"
    using area_conservation[OF h w g p] by (simp add: example_bounds_def)
  then show ?thesis using w g p by (simp add: example_heap_def)
qed

text \<open>
  C4: for a non-empty input in which every weight is 0, and finite non-negative
  \<open>bounds.width\<close> and \<open>bounds.height\<close>, every item has after the call the area
  \<open>bounds.width \<times> bounds.height / items.length\<close>.
\<close>

theorem zero_weights_equal_areas:
  assumes ne: "its \<noteq> []"
    and ws: "\<forall>r\<in>set its. weight (h r) = Fin 0"
    and bw: "fin_nonneg (width bounds)" and bh: "fin_nonneg (height bounds)"
  shows "\<exists>s. squarify h its bounds = Inr s \<and>
           (\<forall>r\<in>set its. area (objs (mem s) r) =
              num_div (num_mul (width bounds) (height bounds)) (num_of_nat (length its)))"
proof -
  define A where "A = fin_val (width bounds) * fin_val (height bounds)"
  have N0: "(of_nat (length its) :: rat) \<noteq> 0" using ne by simp
  obtain s where s: "squarify h its bounds = Inr s"
    and ar: "\<forall>r\<in>set its. \<exists>a. area (objs (mem s) r) = Fin a \<and> a * of_nat (length its) = A"
    using squarify_even[OF ws bw bh] unfolding A_def by blast
  obtain p q where pq: "width bounds = Fin p" "height bounds = Fin q"
    using bw bh by (auto elim!: fin_nonnegE)
  have rhs: "num_div (num_mul (width bounds) (height bounds)) (num_of_nat (length its)) =
      Fin (A / of_nat (length its))"
    using ne by (simp add: pq A_def num_of_nat_def)
  have "area (objs (mem s) r) = Fin (A / of_nat (length its))" if "r \<in> set its" for r
  proof -
    have "\<exists>a. area (objs (mem s) r) = Fin a \<and> a * of_nat (length its) = A"
      using ar that by (rule bspec)
    then obtain a where a: "area (objs (mem s) r) = Fin a" "a * of_nat (length its) = A"
      by (elim exE conjE)
    have "a = A / of_nat (length its)" using a(2) N0 by (simp add: eq_divide_eq)
    then show ?thesis using a(1) by simp
  qed
  then show ?thesis using s rhs by simp
qed

theorem zero_weights_equal_areas_witness:
  "[0, 1, 2] \<noteq> ([] :: ref list) \<and>
   weight (zero_heap 0) = Fin 0 \<and> weight (zero_heap 1) = Fin 0 \<and> weight (zero_heap 2) = Fin 0 \<and>
   fin_nonneg (width example_bounds) \<and> fin_nonneg (height example_bounds) \<and>
   (\<exists>s. squarify zero_heap [0, 1, 2] example_bounds = Inr s \<and>
        area (objs (mem s) 0) = Fin (10000 / 3) \<and> area (objs (mem s) 1) = Fin (10000 / 3) \<and>
        area (objs (mem s) 2) = Fin (10000 / 3))"
proof -
  have n: "[0, 1, 2] \<noteq> ([] :: ref list)" by simp
  have h: "\<forall>r\<in>set [0, 1, 2]. weight (zero_heap r) = Fin 0"
    by (simp add: zero_heap_def)
  have w: "fin_nonneg (width example_bounds)" and g: "fin_nonneg (height example_bounds)"
    by (simp_all add: example_bounds_def)
  have "\<exists>s. squarify zero_heap [0, 1, 2] example_bounds = Inr s \<and>
        area (objs (mem s) 0) = Fin (10000 / 3) \<and> area (objs (mem s) 1) = Fin (10000 / 3) \<and>
        area (objs (mem s) 2) = Fin (10000 / 3)"
    using zero_weights_equal_areas[OF n h w g] by (simp add: example_bounds_def num_of_nat_def)
  then show ?thesis using w g by (simp add: zero_heap_def)
qed

text \<open>
  C2, as amended: with finite non-negative weights of positive sum and finite
  non-negative \<open>bounds.width\<close> and \<open>bounds.height\<close>, any two items of weights
  \<open>w1 > 0\<close> and \<open>w2 > 0\<close> have areas with \<open>area1 \<times> w2 = area2 \<times> w1\<close>; when
  \<open>bounds.width\<close> and \<open>bounds.height\<close> are both positive, the ratio of the areas is
  \<open>w1 / w2\<close>.
\<close>

theorem area_proportional:
  assumes ws: "\<forall>r\<in>set its. fin_nonneg (weight (h r))"
    and bw: "fin_nonneg (width bounds)" and bh: "fin_nonneg (height bounds)"
    and pos: "num_less (Fin 0) (sumWeights h its)"
    and r1: "r1 \<in> set its" and r2: "r2 \<in> set its"
    and w1: "num_less (Fin 0) (weight (h r1))" and w2: "num_less (Fin 0) (weight (h r2))"
  shows "\<exists>s. squarify h its bounds = Inr s \<and>
           num_mul (area (objs (mem s) r1)) (weight (h r2)) =
             num_mul (area (objs (mem s) r2)) (weight (h r1)) \<and>
           (num_less (Fin 0) (width bounds) \<and> num_less (Fin 0) (height bounds) \<longrightarrow>
              num_div (area (objs (mem s) r1)) (area (objs (mem s) r2)) =
                num_div (weight (h r1)) (weight (h r2)))"
proof -
  define T where "T = (\<Sum>r\<leftarrow>its. wv h r)"
  define A where "A = fin_val (width bounds) * fin_val (height bounds)"
  have "sumWeights h its = Fin T" unfolding T_def using ws by (rule sumWeights_fin)
  then have T0: "0 < T" using pos by simp
  obtain s where s: "squarify h its bounds = Inr s"
    and ar: "\<forall>r\<in>set its. \<exists>a. area (objs (mem s) r) = Fin a \<and> 0 \<le> a \<and> a * T = A * wv h r"
    using squarify_area[OF ws bw bh] unfolding T_def A_def by blast
  obtain a1 where a1: "area (objs (mem s) r1) = Fin a1" "a1 * T = A * wv h r1"
    using ar r1 by blast
  obtain a2 where a2: "area (objs (mem s) r2) = Fin a2" "a2 * T = A * wv h r2"
    using ar r2 by blast
  have f1: "weight (h r1) = Fin (wv h r1)" using ws r1 by (intro weight_fin) simp
  have f2: "weight (h r2) = Fin (wv h r2)" using ws r2 by (intro weight_fin) simp
  have p1: "0 < wv h r1" using w1 by (simp add: f1)
  have p2: "0 < wv h r2" using w2 by (simp add: f2)
  have "(a1 * wv h r2) * T = (a1 * T) * wv h r2" by simp
  also have "\<dots> = (a2 * T) * wv h r1" unfolding a1(2) a2(2) by simp
  also have "\<dots> = (a2 * wv h r1) * T" by simp
  finally have cross: "a1 * wv h r2 = a2 * wv h r1" using T0 by simp
  have ratio: "num_div (Fin a1) (Fin a2) = num_div (Fin (wv h r1)) (Fin (wv h r2))"
    if "num_less (Fin 0) (width bounds) \<and> num_less (Fin 0) (height bounds)"
  proof -
    have "0 < A" using that bw bh by (auto simp: A_def elim!: fin_nonnegE)
    then have "0 < a2 * T" using p2 by (simp add: a2(2))
    then have n2: "a2 \<noteq> 0" by auto
    have "a1 / a2 = wv h r1 / wv h r2"
      using cross n2 p2 by (simp add: field_simps)
    then show ?thesis using n2 p2 by simp
  qed
  show ?thesis using s cross ratio by (simp add: a1(1) a2(1) f1 f2)
qed

theorem area_proportional_witness:
  "fin_nonneg (weight (example_heap 0)) \<and> fin_nonneg (weight (example_heap 1)) \<and>
   fin_nonneg (weight (example_heap 2)) \<and>
   fin_nonneg (width example_bounds) \<and> fin_nonneg (height example_bounds) \<and>
   num_less (Fin 0) (sumWeights example_heap [0, 1, 2]) \<and>
   num_less (Fin 0) (weight (example_heap 0)) \<and> num_less (Fin 0) (weight (example_heap 1)) \<and>
   num_less (Fin 0) (width example_bounds) \<and> num_less (Fin 0) (height example_bounds) \<and>
   (\<exists>s. squarify example_heap [0, 1, 2] example_bounds = Inr s \<and>
        num_div (area (objs (mem s) 0)) (area (objs (mem s) 1)) = Fin (3 / 2))"
proof -
  have h: "\<forall>r\<in>set [0, 1, 2]. fin_nonneg (weight (example_heap r))"
    by (simp add: example_heap_def)
  have w: "fin_nonneg (width example_bounds)" and g: "fin_nonneg (height example_bounds)"
    by (simp_all add: example_bounds_def)
  have p: "num_less (Fin 0) (sumWeights example_heap [0, 1, 2])"
    by (simp add: sumWeights_def example_heap_def)
  have m: "0 \<in> set [0, 1, 2 :: ref]" "1 \<in> set [0, 1, 2 :: ref]" by simp_all
  have q: "num_less (Fin 0) (weight (example_heap 0))" "num_less (Fin 0) (weight (example_heap 1))"
    by (simp_all add: example_heap_def)
  have pb: "num_less (Fin 0) (width example_bounds)" "num_less (Fin 0) (height example_bounds)"
    by (simp_all add: example_bounds_def)
  have "\<exists>s. squarify example_heap [0, 1, 2] example_bounds = Inr s \<and>
        num_div (area (objs (mem s) 0)) (area (objs (mem s) 1)) = Fin (3 / 2)"
    using area_proportional[OF h w g p m q] pb by (auto simp: example_heap_def)
  then show ?thesis using w g p q pb by (simp add: example_heap_def)
qed

text \<open>
  C2 as stated fails where the bounds have no area: for the items of weights 3 and 2 in
  bounds of width 0 and height 10 both areas are 0, and their ratio is \<^verbatim>\<open>0 / 0\<close>, NaN,
  not \<open>3 / 2\<close>.
\<close>

theorem area_ratio_counterexample:
  "fin_nonneg (weight (example_heap 0)) \<and> fin_nonneg (weight (example_heap 1)) \<and>
   fin_nonneg (width flat_bounds) \<and> fin_nonneg (height flat_bounds) \<and>
   num_less (Fin 0) (sumWeights example_heap [0, 1]) \<and>
   num_less (Fin 0) (weight (example_heap 0)) \<and> num_less (Fin 0) (weight (example_heap 1)) \<and>
   num_div (area (heap_after example_heap [0, 1] flat_bounds 0))
           (area (heap_after example_heap [0, 1] flat_bounds 1)) = NaN \<and>
   num_div (weight (example_heap 0)) (weight (example_heap 1)) = Fin (3 / 2)"
proof -
  have h: "\<forall>r\<in>set [0, 1]. fin_nonneg (weight (example_heap r))"
    by (simp add: example_heap_def)
  have w: "fin_nonneg (width flat_bounds)" and g: "fin_nonneg (height flat_bounds)"
    and f: "Math_min (width flat_bounds) (height flat_bounds) = Fin 0"
    by (simp_all add: flat_bounds_def Math_min_fin)
  obtain s where s: "squarify example_heap [0, 1] flat_bounds = Inr s"
    "\<forall>r\<in>set [0, 1]. area (objs (mem s) r) = Fin 0"
    using squarify_zero[OF h w g f] by blast
  have "area (heap_after example_heap [0, 1] flat_bounds 0) = Fin 0"
    "area (heap_after example_heap [0, 1] flat_bounds 1) = Fin 0"
    using s by (simp_all add: heap_after_def)
  then show ?thesis using w g by (simp add: example_heap_def sumWeights_def)
qed

section \<open>Bounds with a zero edge\<close>

text \<open>
  C3, as amended: when the shorter edge \<open>min(bounds.width, bounds.height)\<close> is 0,
  \<^verbatim>\<open>calculateWorstAspectRatioInRow\<close> returns \<^verbatim>\<open>Number.MAX_VALUE\<close> for every non-empty
  row, before any division; the call ends without throwing, and since
  \<^verbatim>\<open>MAX_VALUE >= MAX_VALUE\<close> every item is accepted into the first row: all the items
  are laid out by one call of \<^verbatim>\<open>layoutRow\<close>, as one row (a permutation of the items,
  by descending weight when the weights are finite). With finite non-negative weights,
  \<open>bounds.width\<close> and \<open>bounds.height\<close> every rectangle assigned has area 0, and the call
  divides by zero exactly when there are items and their weights sum to 0 (lines 183
  and 199 then evaluate \<^verbatim>\<open>0 / 0\<close>).
\<close>

theorem degenerate_bounds:
  assumes flat: "Math_min (width bounds) (height bounds) = Fin 0"
  shows "(rw \<noteq> [] \<longrightarrow>
            calculateWorstAspectRatioInRow m rw (Math_min (width bounds) (height bounds)) b =
              Inr MAX_VALUE \<and>
            calc_divisors m rw (Math_min (width bounds) (height bounds)) b = []) \<and>
         (\<exists>s. squarify h its bounds = Inr s \<and>
            (its = [] \<longrightarrow> committed s = []) \<and>
            (its \<noteq> [] \<longrightarrow>
               (\<exists>rw. committed s = [rw] \<and> mset rw = mset its \<and>
                  ((\<forall>r\<in>set its. fin_nonneg (weight (h r))) \<longrightarrow>
                     sorted_wrt (\<lambda>p q. wv h q \<le> wv h p) rw))) \<and>
            ((\<forall>r\<in>set its. fin_nonneg (weight (h r))) \<and>
             fin_nonneg (width bounds) \<and> fin_nonneg (height bounds) \<longrightarrow>
               (\<forall>e\<in>set (assigned (mem s)). area (snd e) = Fin 0) \<and>
               (\<forall>r\<in>set its. area (objs (mem s) r) = Fin 0))) \<and>
         ((\<forall>r\<in>set its. fin_nonneg (weight (h r))) \<longrightarrow>
            ((\<exists>d. divides_by (init h its bounds) d \<and> num_eq d (Fin 0)) \<longleftrightarrow>
               its \<noteq> [] \<and> sumWeights h its = Fin 0))"
proof (intro conjI impI)
  assume "rw \<noteq> []"
  then show "calculateWorstAspectRatioInRow m rw (Math_min (width bounds) (height bounds)) b =
      Inr MAX_VALUE"
    unfolding flat by (rule calc_flat)
next
  show "calc_divisors m rw (Math_min (width bounds) (height bounds)) b = []"
    unfolding flat by (rule calc_divisors_flat)
next
  obtain s where s: "squarify h its bounds = Inr s"
    using squarify_struct[of h its bounds] by blast
  note c = flat_committed[OF flat s]
  have e: "committed s = []" if "its = []" using c that by simp
  have r: "\<exists>rw. committed s = [rw] \<and> mset rw = mset its \<and>
                  ((\<forall>r\<in>set its. fin_nonneg (weight (h r))) \<longrightarrow>
                     sorted_wrt (\<lambda>p q. wv h q \<le> wv h p) rw)" if "its \<noteq> []"
  proof (intro exI[where x = "sort_by_weight h its"] conjI impI)
    show "committed s = [sort_by_weight h its]" using c that by simp
    show "mset (sort_by_weight h its) = mset its" by (rule mset_sort_by_weight)
    assume "\<forall>r\<in>set its. fin_nonneg (weight (h r))"
    then show "sorted_wrt (\<lambda>p q. wv h q \<le> wv h p) (sort_by_weight h its)"
      by (rule sorted_sort_by_weight)
  qed
  have z: "(\<forall>e\<in>set (assigned (mem s)). area (snd e) = Fin 0) \<and>
               (\<forall>r\<in>set its. area (objs (mem s) r) = Fin 0)"
    if "(\<forall>r\<in>set its. fin_nonneg (weight (h r))) \<and>
             fin_nonneg (width bounds) \<and> fin_nonneg (height bounds)"
    using squarify_zero[of its h bounds] that flat s by auto
  show "\<exists>s. squarify h its bounds = Inr s \<and>
            (its = [] \<longrightarrow> committed s = []) \<and>
            (its \<noteq> [] \<longrightarrow>
               (\<exists>rw. committed s = [rw] \<and> mset rw = mset its \<and>
                  ((\<forall>r\<in>set its. fin_nonneg (weight (h r))) \<longrightarrow>
                     sorted_wrt (\<lambda>p q. wv h q \<le> wv h p) rw))) \<and>
            ((\<forall>r\<in>set its. fin_nonneg (weight (h r))) \<and>
             fin_nonneg (width bounds) \<and> fin_nonneg (height bounds) \<longrightarrow>
               (\<forall>e\<in>set (assigned (mem s)). area (snd e) = Fin 0) \<and>
               (\<forall>r\<in>set its. area (objs (mem s) r) = Fin 0))"
    using s e r z by blast
next
  assume "\<forall>r\<in>set its. fin_nonneg (weight (h r))"
  with flat show "(\<exists>d. divides_by (init h its bounds) d \<and> num_eq d (Fin 0)) \<longleftrightarrow>
               its \<noteq> [] \<and> sumWeights h its = Fin 0"
    by (rule flat_divides)
qed

theorem degenerate_bounds_witness:
  "Math_min (width flat_bounds) (height flat_bounds) = Fin 0 \<and>
   calculateWorstAspectRatioInRow (mem (init example_heap [0, 1, 2] flat_bounds)) [0]
     (Math_min (width flat_bounds) (height flat_bounds)) flat_bounds = Inr MAX_VALUE \<and>
   (\<exists>s rw. squarify example_heap [0, 1, 2] flat_bounds = Inr s \<and>
        committed s = [rw] \<and> mset rw = mset [0, 1, 2] \<and>
        sorted_wrt (\<lambda>p q. wv example_heap q \<le> wv example_heap p) rw \<and>
        area (objs (mem s) 0) = Fin 0 \<and> area (objs (mem s) 1) = Fin 0 \<and>
        area (objs (mem s) 2) = Fin 0) \<and>
   \<not> (\<exists>d. divides_by (init example_heap [0, 1, 2] flat_bounds) d \<and> num_eq d (Fin 0))"
proof -
  have f: "Math_min (width flat_bounds) (height flat_bounds) = Fin 0"
    by (simp add: flat_bounds_def Math_min_fin)
  have h: "\<forall>r\<in>set [0, 1, 2]. fin_nonneg (weight (example_heap r))"
    by (simp add: example_heap_def)
  have w: "fin_nonneg (width flat_bounds)" and g: "fin_nonneg (height flat_bounds)"
    by (simp_all add: flat_bounds_def)
  have n: "[0, 1, 2] \<noteq> ([] :: ref list)" by simp
  have sw: "sumWeights example_heap [0, 1, 2] \<noteq> Fin 0"
    by (simp add: sumWeights_def example_heap_def)
  note d = degenerate_bounds[OF f, of "[0]" "mem (init example_heap [0, 1, 2] flat_bounds)"
      flat_bounds example_heap "[0, 1, 2]"]
  have a: "calculateWorstAspectRatioInRow (mem (init example_heap [0, 1, 2] flat_bounds)) [0]
     (Math_min (width flat_bounds) (height flat_bounds)) flat_bounds = Inr MAX_VALUE"
    using d by simp
  obtain s where s: "squarify example_heap [0, 1, 2] flat_bounds = Inr s"
    "\<exists>rw. committed s = [rw] \<and> mset rw = mset [0, 1, 2] \<and>
       ((\<forall>r\<in>set [0, 1, 2]. fin_nonneg (weight (example_heap r))) \<longrightarrow>
          sorted_wrt (\<lambda>p q. wv example_heap q \<le> wv example_heap p) rw)"
    "\<forall>r\<in>set [0, 1, 2]. area (objs (mem s) r) = Fin 0"
    using d n h w g by blast
  from s(2) h obtain rw where rw: "committed s = [rw]" "mset rw = mset [0, 1, 2]"
    "sorted_wrt (\<lambda>p q. wv example_heap q \<le> wv example_heap p) rw"
    by blast
  have b: "\<exists>s rw. squarify example_heap [0, 1, 2] flat_bounds = Inr s \<and>
        committed s = [rw] \<and> mset rw = mset [0, 1, 2] \<and>
        sorted_wrt (\<lambda>p q. wv example_heap q \<le> wv example_heap p) rw \<and>
        area (objs (mem s) 0) = Fin 0 \<and> area (objs (mem s) 1) = Fin 0 \<and>
        area (objs (mem s) 2) = Fin 0"
    using s(1,3) rw by (intro exI[where x = s] exI[where x = rw]) simp
  have c: "\<not> (\<exists>d. divides_by (init example_heap [0, 1, 2] flat_bounds) d \<and> num_eq d (Fin 0))"
    using d h sw by blast
  show ?thesis using f a b c by blast
qed

text \<open>
  C3 as stated fails twice. On "each item gets its own row": for the items of weights 3
  and 2 in bounds of width 0 and height 10 one row holding both items is laid out. On
  "without dividing by zero": for one item of weight 0 in the same bounds line 183
  divides by \<open>totalRemainingWeightSum = 0\<close>.
\<close>

theorem own_row_counterexample:
  "Math_min (width flat_bounds) (height flat_bounds) = Fin 0 \<and>
   rows_after example_heap [0, 1] flat_bounds = [[0, 1]] \<and>
   rows_after example_heap [0, 1] flat_bounds \<noteq> [[0], [1]] \<and>
   divides_by (init zero_heap [0] flat_bounds) (Fin 0) \<and> num_eq (Fin 0) (Fin 0)"
proof -
  have f: "Math_min (width flat_bounds) (height flat_bounds) = Fin 0"
    by (simp add: flat_bounds_def Math_min_fin)
  have srt: "sort_by_weight example_heap [0, 1] = [0, 1]"
    by (rule sort_example_two)
  have r: "rows_after example_heap [0, 1] flat_bounds = [[0, 1]]"
    by (simp add: flat_rows[OF f] srt del: One_nat_def)
  have z: "\<forall>r\<in>set [0]. fin_nonneg (weight (zero_heap r))"
    by (simp add: zero_heap_def)
  have "sumWeights zero_heap [0] = Fin 0"
    by (simp add: sumWeights_def zero_heap_def)
  then have "\<exists>d. divides_by (init zero_heap [0] flat_bounds) d \<and> num_eq d (Fin 0)"
    using flat_divides[OF f z] by simp
  then have d: "divides_by (init zero_heap [0] flat_bounds) (Fin 0)"
    by (auto simp: num_eq_zero)
  show ?thesis using f r d by (simp add: num_eq_zero)
qed

end
